theory Spec2Isabelle
  imports Complex_Main "HOL-Library.AList"
begin

section \<open>Python values and errors\<close>

text \<open>
  Exceptions of the Python sources are values: a computation that can raise returns
  \<open>error + 'a\<close>, with \<open>Inl\<close> carrying the exception.
\<close>

datatype error =
    DigitizationError string
  | IndexError
  | KeyError
  | TypeError
  | ValueError
  | ZeroDivisionError
  | CvError

text \<open>\<open>CvError\<close> is \<open>cv2.error\<close>, the exception of the OpenCV functions.\<close>

text \<open>The two messages with which the sources raise DigitizationError, under the names
  the specification gives to these error kinds.\<close>

definition CalibrationError :: error where
  "CalibrationError = DigitizationError ''Reference pulses have not been detected correctly''"


text \<open>Sequential loops whose body may raise: the first exception ends the loop.\<close>

fun fold_err :: "('a \<Rightarrow> 's \<Rightarrow> error + 's) \<Rightarrow> 'a list \<Rightarrow> 's \<Rightarrow> error + 's" where
  "fold_err f [] s = Inr s"
| "fold_err f (a # as) s = (case f a s of Inl e \<Rightarrow> Inl e | Inr s' \<Rightarrow> fold_err f as s')"

text \<open>A list comprehension whose element expression may raise.\<close>

fun map_err :: "('a \<Rightarrow> error + 'b) \<Rightarrow> 'a list \<Rightarrow> error + 'b list" where
  "map_err f [] = Inr []"
| "map_err f (a # as) =
     (case f a of
        Inl e \<Rightarrow> Inl e
      | Inr b \<Rightarrow> (case map_err f as of Inl e \<Rightarrow> Inl e | Inr bs \<Rightarrow> Inr (b # bs)))"

text \<open>\<open>xs[i]\<close> with Python's negative indices; out of range raises IndexError.\<close>

definition py_get :: "'a list \<Rightarrow> int \<Rightarrow> error + 'a" where
  "py_get xs i =
     (if 0 \<le> i \<and> i < int (length xs) then Inr (xs ! nat i)
      else if i < 0 \<and> - int (length xs) \<le> i then Inr (xs ! nat (int (length xs) + i))
      else Inl IndexError)"

text \<open>\<open>min(xs, key=f)\<close> and \<open>max(xs, key=f)\<close>: the first extremal element; ValueError on
  an empty sequence is the value None here and is turned into the exception by the caller.\<close>

fun py_min_key :: "('a \<Rightarrow> 'b::linorder) \<Rightarrow> 'a list \<Rightarrow> 'a option" where
  "py_min_key f [] = None"
| "py_min_key f (a # as) = Some (foldl (\<lambda>b c. if f c < f b then c else b) a as)"


text \<open>\<open>itertools.groupby\<close>: maximal runs of consecutive elements with equal keys.\<close>

fun groupby_key :: "('a \<Rightarrow> 'k) \<Rightarrow> 'a list \<Rightarrow> 'a list list" where
  "groupby_key f [] = []"
| "groupby_key f (a # as) =
     (case groupby_key f as of
        [] \<Rightarrow> [[a]]
      | g # gs \<Rightarrow> if f a = f (hd g) then (a # g) # gs else [a] # g # gs)"

section \<open>Points and rasters\<close>

datatype point = Point (x_coord: int) (y_coord: int)

text \<open>
  The buffer of a GRAY image, row-major: \<open>ecg ! r ! c\<close> is the pixel at row \<open>r\<close>, column
  \<open>c\<close>. 0 is ink, 255 is paper.
\<close>

type_synonym raster = "nat list list"

definition height :: "raster \<Rightarrow> nat" where
  "height ecg = length ecg"

definition width :: "raster \<Rightarrow> nat" where
  "width ecg = (case ecg of [] \<Rightarrow> 0 | r # _ \<Rightarrow> length r)"

definition BLACK :: nat where
  "BLACK = 0"

section \<open>SignalExtractor\<close>

subsection \<open>Region of interest (\_\_get\_roi)\<close>

definition WINDOW :: nat where
  "WINDOW = 10"

definition SHIFT :: nat where
  "SHIFT = (WINDOW - 1) div 2"

text \<open>
  \<open>ecg[y0:y1, x0:x1].reshape(-1)\<close> with \<open>x0, x1 = (0, ecg.width)\<close> and
  \<open>y0, y1 = (i, i + WINDOW - 1)\<close>: a slice excludes its upper end.
\<close>

definition window_pixels :: "raster \<Rightarrow> nat \<Rightarrow> nat list" where
  "window_pixels ecg i =
     (let x0 = 0; x1 = width ecg; y0 = i; y1 = i + WINDOW - 1
      in concat (map (\<lambda>row. take (x1 - x0) (drop x0 row)) (take (y1 - y0) (drop y0 ecg))))"

text \<open>
  The loop filling \<open>stds\<close>. The standard deviation is numpy's (\<open>std\<close>, a parameter);
  \<open>range(ecg.height - WINDOW + 1)\<close> is empty when the bound is not positive.
\<close>

definition get_stds :: "(nat list \<Rightarrow> real) \<Rightarrow> raster \<Rightarrow> real list" where
  "get_stds std ecg =
     foldl (\<lambda>stds i. stds[i + SHIFT := std (window_pixels ecg i)])
       (replicate (height ecg) 0)
       [0..<nat (int (height ecg) - int WINDOW + 1)]"


subsection \<open>Clusters of a column (\_\_get\_clusters) and their gap (\_\_gap)\<close>

type_synonym cluster = "int list"

definition get_clusters :: "raster \<Rightarrow> nat \<Rightarrow> cluster list" where
  "get_clusters ecg col =
     (let black_p = map int (filter (\<lambda>r. ecg ! r ! col = BLACK) [0..<height ecg])
      in map (map snd) (groupby_key (\<lambda>(idx, v). int idx - v) (enumerate 0 black_p)))"

text \<open>\<open>len(range(a, b))\<close> is \<open>max 0 (b - a)\<close>.\<close>

definition len_range :: "int \<Rightarrow> int \<Rightarrow> nat" where
  "len_range a b = nat (b - a)"

definition gap :: "cluster \<Rightarrow> cluster \<Rightarrow> nat" where
  "gap pc c =
     (let pc_min = hd pc; pc_max = last pc; c_min = hd c; c_max = last c
      in if pc_min \<le> c_min \<and> pc_max \<le> c_max then len_range (pc_max + 1) c_min
         else if pc_min \<ge> c_min \<and> pc_max \<ge> c_max then len_range (c_max + 1) pc_min
         else 0)"

text \<open>\<open>ceil(mean(cluster))\<close> with \<open>mean = (cluster[0] + cluster[-1]) / 2\<close>.\<close>

definition mean :: "cluster \<Rightarrow> rat" where
  "mean cl = of_int (hd cl + last cl) / 2"

definition centre :: "cluster \<Rightarrow> int" where
  "centre cl = \<lceil>mean cl\<rceil>"

subsection \<open>The cache of links between clusters (extract\_signals)\<close>

text \<open>
  A key of the cache is \<open>(column, cluster)\<close>. Its value is a list with one entry per ROI:
  None while the entry is not computed, else \<open>(y, previous key, length, score)\<close>. The
  cache is a Python dict: an association list in insertion order, an assignment to a
  present key keeps its place. Scores are rationals: the arithmetic of the sources on
  doubles (\<open>N / 10 * g\<close>) is taken exactly.
\<close>

type_synonym node = "nat \<times> cluster"

datatype cell = Cell (cell_y: int) (cell_prev: "node option") (cell_len: nat) (cell_score: rat)

type_synonym cache = "(node \<times> cell option list) list"

text \<open>\<open>cache[node][roi_i]\<close>, read as a tuple.\<close>

definition cache_cell :: "cache \<Rightarrow> node \<Rightarrow> nat \<Rightarrow> error + cell" where
  "cache_cell cache node roi_i =
     (case map_of cache node of
        None \<Rightarrow> Inl KeyError
      | Some stats \<Rightarrow>
          if length stats \<le> roi_i then Inl IndexError
          else (case stats ! roi_i of None \<Rightarrow> Inl TypeError | Some cl \<Rightarrow> Inr cl))"

text \<open>The body of \<open>for pc in prev_clusters\<close>: the state is the cache and \<open>costs\<close>.\<close>

definition cost_step ::
  "nat \<Rightarrow> nat \<Rightarrow> nat list \<Rightarrow> nat \<Rightarrow> cluster \<Rightarrow> nat \<Rightarrow> cluster
     \<Rightarrow> cache \<times> (cluster \<times> rat) list \<Rightarrow> error + cache \<times> (cluster \<times> rat) list" where
  "cost_step n N rois col c roi_i pc st =
     (let node = (col - 1, pc);
          ctr = centre pc;
          cache = (if map_of (fst st) node = None
                   then AList.update node (replicate n (Some (Cell ctr None 1 0))) (fst st)
                   else fst st)
      in case cache_cell cache node roi_i of
           Inl e \<Rightarrow> Inl e
         | Inr pcell \<Rightarrow>
             if length rois \<le> roi_i then Inl IndexError
             else
               (let ps = cell_score pcell;
                    d = \<bar>ctr - int (rois ! roi_i)\<bar>;
                    g = gap pc c
                in Inr (cache, AList.update pc (ps + of_int d + of_nat N / 10 * of_nat g) (snd st))))"

text \<open>The body of \<open>for roi_i in range(self.__n)\<close>; \<open>min\<close> of no costs raises ValueError.\<close>

definition roi_step ::
  "nat \<Rightarrow> nat \<Rightarrow> nat list \<Rightarrow> nat \<Rightarrow> cluster list \<Rightarrow> cluster \<Rightarrow> nat \<Rightarrow> cache \<Rightarrow> error + cache" where
  "roi_step n N rois col prev_clusters c roi_i cache =
     (case fold_err (cost_step n N rois col c roi_i) prev_clusters (cache, []) of
        Inl e \<Rightarrow> Inl e
      | Inr st \<Rightarrow>
          (case py_min_key snd (snd st) of
             None \<Rightarrow> Inl ValueError
           | Some best_s \<Rightarrow>
               (let best = fst best_s;
                    y = centre best;
                    p = (col - 1, best)
                in case cache_cell (fst st) p roi_i of
                     Inl e \<Rightarrow> Inl e
                   | Inr bcell \<Rightarrow>
                       (let l = cell_len bcell + 1;
                            s = snd best_s
                        in case map_of (fst st) (col, c) of
                             None \<Rightarrow> Inl KeyError
                           | Some stats \<Rightarrow>
                               if length stats \<le> roi_i then Inl IndexError
                               else Inr (AList.update (col, c)
                                           (stats[roi_i := Some (Cell y (Some p) l s)]) (fst st))))))"

text \<open>The body of \<open>for c in clusters\<close>.\<close>

definition cluster_step ::
  "nat \<Rightarrow> nat \<Rightarrow> nat list \<Rightarrow> nat \<Rightarrow> cluster list \<Rightarrow> cluster \<Rightarrow> cache \<Rightarrow> error + cache" where
  "cluster_step n N rois col prev_clusters c cache =
     fold_err (roi_step n N rois col prev_clusters c) [0..<n]
       (AList.update (col, c) (replicate n None) cache)"

text \<open>The body of \<open>for col in range(1, N)\<close>: a column whose left neighbour has no cluster
  is passed over.\<close>

definition column_step :: "nat \<Rightarrow> nat list \<Rightarrow> raster \<Rightarrow> nat \<Rightarrow> cache \<Rightarrow> error + cache" where
  "column_step n rois ecg col cache =
     (let prev_clusters = get_clusters ecg (col - 1)
      in if prev_clusters = [] then Inr cache
         else fold_err (cluster_step n (width ecg) rois col prev_clusters)
                (get_clusters ecg col) cache)"

definition dp_cache :: "nat \<Rightarrow> nat list \<Rightarrow> raster \<Rightarrow> error + cache" where
  "dp_cache n rois ecg = fold_err (column_step n rois ecg) [1..<width ecg] []"

subsection \<open>Backtracking (\_\_backtracking)\<close>







section \<open>Postprocessor\<close>

subsection \<open>Leads, formats and the configuration\<close>

datatype lead =
    Lead_I | Lead_II | Lead_III | Lead_aVR | Lead_aVL | Lead_aVF
  | Lead_V1 | Lead_V2 | Lead_V3 | Lead_V4 | Lead_V5 | Lead_V6

definition STANDARD :: "lead list" where
  "STANDARD = [Lead_I, Lead_II, Lead_III, Lead_aVR, Lead_aVL, Lead_aVF,
               Lead_V1, Lead_V2, Lead_V3, Lead_V4, Lead_V5, Lead_V6]"

definition CABRERA :: "lead list" where
  "CABRERA = [Lead_aVL, Lead_I, Lead_aVR, Lead_II, Lead_aVF, Lead_III,
              Lead_V1, Lead_V2, Lead_V3, Lead_V4, Lead_V5, Lead_V6]"

record postprocessor =
  layout :: "nat \<times> nat"
  rhythm :: "lead list"
  rp_at_right :: bool
  cabrera :: bool
  interpolation :: "nat option"

text \<open>\<open>ORDER = Format.CABRERA if self.__cabrera else Format.STANDARD\<close>\<close>

definition lead_order :: "postprocessor \<Rightarrow> lead list" where
  "lead_order pp = (if cabrera pp then CABRERA else STANDARD)"

subsection \<open>Python list operations\<close>

text \<open>\<open>xs[start:stop]\<close>: a negative bound counts from the end, and bounds are clamped.\<close>

definition slice_bound :: "nat \<Rightarrow> int \<Rightarrow> nat" where
  "slice_bound n i = (if i < 0 then nat (int n + i) else min n (nat i))"

definition py_slice :: "int option \<Rightarrow> int option \<Rightarrow> 'a list \<Rightarrow> 'a list" where
  "py_slice start stop xs =
     (let n = length xs;
          a = (case start of None \<Rightarrow> 0 | Some i \<Rightarrow> slice_bound n i);
          b = (case stop of None \<Rightarrow> n | Some i \<Rightarrow> slice_bound n i)
      in take (b - a) (drop a xs))"

text \<open>\<open>xs.index(a)\<close> for an element of the list.\<close>

fun index_of :: "'a \<Rightarrow> 'a list \<Rightarrow> nat" where
  "index_of a [] = 0"
| "index_of a (b # bs) = (if a = b then 0 else Suc (index_of a bs))"

subsection \<open>Segmentation of the reference pulse (\_\_segment)\<close>

datatype pulse_pos = INI | MID | END

definition PIXEL_EPS :: int where
  "PIXEL_EPS = 5"

text \<open>The loop over \<open>direction\<close>; the result is \<open>cut\<close>, None when the loop ends
  without a break.\<close>

fun find_cut ::
  "point list list \<Rightarrow> int list \<Rightarrow> pulse_pos \<Rightarrow> int \<Rightarrow> int list \<Rightarrow> error + int option" where
  "find_cut raw_signals first_pixels pulse_pos ini_count [] = Inr None"
| "find_cut raw_signals first_pixels pulse_pos ini_count (i # direction) =
     (case map_err (\<lambda>(pulso, ini). case py_get pulso i of
                                       Inl e \<Rightarrow> Inl e
                                     | Inr p \<Rightarrow> Inr (y_coord p - ini))
             (zip raw_signals first_pixels) of
        Inl e \<Rightarrow> Inl e
      | Inr ys \<Rightarrow>
          (let y_coords = sort ys;
               at_v0 = list_ex (\<lambda>v. \<bar>v\<bar> \<le> PIXEL_EPS) y_coords;
               break_symmetry = (pulse_pos = END \<and> (\<not> at_v0 \<or> ini_count \<le> 0))
           in if break_symmetry then Inr (Some i)
              else if pulse_pos = INI then
                (if at_v0
                 then find_cut raw_signals first_pixels INI (ini_count + 1) direction
                 else find_cut raw_signals first_pixels MID ini_count direction)
              else if pulse_pos = MID \<and> at_v0 then
                find_cut raw_signals first_pixels END (ini_count - 1) direction
              else if pulse_pos = END then
                find_cut raw_signals first_pixels END (ini_count - 1) direction
              else find_cut raw_signals first_pixels pulse_pos ini_count direction))"

text \<open>
  \<open>first_pixels = [pulso[-1].y for pulso in raw_signals]\<close>, whatever \<open>rp_at_right\<close> is.
  \<open>min\<close> of no lengths raises ValueError; \<open>cut + 1\<close> with \<open>cut = None\<close> raises TypeError.
\<close>

definition segment ::
  "bool \<Rightarrow> point list list \<Rightarrow> error + (point list list \<times> (int \<times> int) list)" where
  "segment rp_right raw_signals =
     (if raw_signals = [] then Inl ValueError
      else
        (let LIMIT = min_list (map length raw_signals)
         in case map_err (\<lambda>pulso. case py_get pulso (- 1) of
                                     Inl e \<Rightarrow> Inl e
                                   | Inr p \<Rightarrow> Inr (y_coord p)) raw_signals of
              Inl e \<Rightarrow> Inl e
            | Inr first_pixels \<Rightarrow>
                (let direction = (if rp_right then map (\<lambda>k. - int k) [1..<LIMIT]
                                  else map int [0..<LIMIT])
                 in case find_cut raw_signals first_pixels INI 0 direction of
                      Inl e \<Rightarrow> Inl e
                    | Inr None \<Rightarrow> Inl TypeError
                    | Inr (Some cut_i) \<Rightarrow>
                        (let signals =
                               map (if rp_right then py_slice (Some 0) (Some (cut_i + 1))
                                    else py_slice (Some cut_i) None) raw_signals;
                             pulses =
                               map (\<lambda>rs. rev (sort (map y_coord
                                      ((if rp_right then py_slice (Some (cut_i + 1)) None
                                        else py_slice (Some 0) (Some (cut_i + 1))) rs))))
                                 raw_signals
                         in case map_err (\<lambda>i. case py_get (pulses ! i) (- 1) of
                                                  Inl e \<Rightarrow> Inl e
                                                | Inr v1 \<Rightarrow> Inr (first_pixels ! i, v1))
                                   [0..<length raw_signals] of
                              Inl e \<Rightarrow> Inl e
                            | Inr ref_pulses \<Rightarrow> Inr (signals, ref_pulses)))))"

subsection \<open>Scaling and the sample table (\_\_vectorize)\<close>

text \<open>
  Samples are rationals: the arithmetic of the sources on doubles is taken exactly.
  \<open>np.round(v, 4)\<close> rounds \<open>v * 10^4\<close> to the nearest integer, halves to the even one.
\<close>

definition round_half_even :: "rat \<Rightarrow> int" where
  "round_half_even q =
     (let f = \<lfloor>q\<rfloor>; d = q - of_int f
      in if d < 1 / 2 then f else if 1 / 2 < d then f + 1 else if even f then f else f + 1)"

definition np_round4 :: "rat \<Rightarrow> rat" where
  "np_round4 q = of_int (round_half_even (q * 10000)) / 10000"

text \<open>The table: one column per lead, a missing entry (NaN) is None.\<close>

type_synonym table = "lead \<Rightarrow> rat option list"

text \<open>Row and grid column from which the lead at position \<open>i\<close> of the order is read.\<close>

definition lead_cell :: "nat \<Rightarrow> lead list \<Rightarrow> nat \<Rightarrow> lead \<Rightarrow> nat \<times> nat" where
  "lead_cell NROWS rhythm_leads i ld =
     (if ld \<in> set rhythm_leads then (index_of ld rhythm_leads + NROWS, 0)
      else (i mod NROWS, i div NROWS))"

text \<open>
  The body of the loop over the leads up to the write into the table: the grid column
  and the scaled, rounded signal of the lead. \<open>i % NROWS\<close> and \<open>len(signal) // NCOLS\<close>
  raise on a zero divisor, an index past the rows raises IndexError.
\<close>

definition lead_signal ::
  "postprocessor \<Rightarrow> rat list list \<Rightarrow> (int \<times> int) list \<Rightarrow> nat \<Rightarrow> lead
     \<Rightarrow> error + (nat \<times> rat list)" where
  "lead_signal pp interp_signals ref_pulses i ld =
     (let NROWS = fst (layout pp); NCOLS = snd (layout pp);
          is_rhythm = (ld \<in> set (rhythm pp));
          r = fst (lead_cell NROWS (rhythm pp) i ld);
          c = snd (lead_cell NROWS (rhythm pp) i ld)
      in if \<not> is_rhythm \<and> NROWS = 0 then Inl ZeroDivisionError
         else if length ref_pulses \<le> r then Inl IndexError
         else
           (let volt_0 = fst (ref_pulses ! r); volt_1 = snd (ref_pulses ! r)
            in if volt_0 = volt_1 then Inl CalibrationError
               else if length interp_signals \<le> r then Inl IndexError
               else if \<not> is_rhythm \<and> NCOLS = 0 then Inl ZeroDivisionError
               else
                 (let signal = interp_signals ! r;
                      obs_num = length signal div (if is_rhythm then 1 else NCOLS);
                      signal = take ((c + 1) * obs_num - c * obs_num) (drop (c * obs_num) signal);
                      signal = map (\<lambda>v. (of_int volt_0 - v) * (1 / of_int (volt_0 - volt_1))) signal;
                      signal = map np_round4 signal;
                      signal = (if cabrera pp \<and> ld = Lead_aVR then map uminus signal else signal)
                  in Inr (c, signal))))"

text \<open>
  \<open>ecg_data.loc[(index >= len(signal) * c) & (index < len(signal) * (c + 1)), lead] = signal\<close>
  on a column of the table.
\<close>

definition write_column :: "nat \<Rightarrow> rat list \<Rightarrow> rat option list \<Rightarrow> rat option list" where
  "write_column c signal column =
     map (\<lambda>j. if length signal * c \<le> j \<and> j < length signal * (c + 1)
              then Some (signal ! (j - length signal * c)) else column ! j)
       [0..<length column]"

text \<open>
  \<open>interp\<close> stands for SciPy's \<open>interp1d\<close> evaluated on \<open>np.linspace(0, len - 1, total_obs)\<close>
  (a parameter); its result is stored in a row of \<open>total_obs\<close> entries.
\<close>

definition total_obs_of :: "postprocessor \<Rightarrow> point list list \<Rightarrow> nat" where
  "total_obs_of pp signals =
     (let NCOLS = snd (layout pp);
          max_len = Max (set (map length signals));
          max_diff = max_len mod NCOLS;
          max_pad = (if max_diff = 0 then 0 else NCOLS - max_diff)
      in case interpolation pp of None \<Rightarrow> max_len + max_pad | Some k \<Rightarrow> k)"

definition interp_rows ::
  "(int list \<Rightarrow> nat \<Rightarrow> error + rat list) \<Rightarrow> nat \<Rightarrow> point list list \<Rightarrow> error + rat list list" where
  "interp_rows interp total_obs signals =
     map_err (\<lambda>s. case interp (map y_coord s) total_obs of
                     Inl e \<Rightarrow> Inl e
                   | Inr row \<Rightarrow> if length row = total_obs then Inr row else Inl ValueError)
       signals"

definition vectorize ::
  "(int list \<Rightarrow> nat \<Rightarrow> error + rat list) \<Rightarrow> postprocessor \<Rightarrow> point list list
     \<Rightarrow> (int \<times> int) list \<Rightarrow> error + table" where
  "vectorize interp pp signals ref_pulses =
     (let ORDER = lead_order pp
      in if signals = [] then Inl ValueError
         else if snd (layout pp) = 0 then Inl ZeroDivisionError
         else
           (let total_obs = total_obs_of pp signals
            in case interp_rows interp total_obs signals of
                 Inl e \<Rightarrow> Inl e
               | Inr interp_signals \<Rightarrow>
                   fold_err (\<lambda>(i, ld) ecg_data.
                       case lead_signal pp interp_signals ref_pulses i ld of
                         Inl e \<Rightarrow> Inl e
                       | Inr (c, signal) \<Rightarrow>
                           Inr (ecg_data(ld := write_column c signal (ecg_data ld))))
                     (enumerate 0 ORDER)
                     (\<lambda>ld. replicate total_obs None)))"

text \<open>The sample table of \<open>postprocess\<close>; the trace image is drawn afterwards.\<close>

definition postprocess ::
  "(int list \<Rightarrow> nat \<Rightarrow> error + rat list) \<Rightarrow> postprocessor \<Rightarrow> point list list \<Rightarrow> error + table" where
  "postprocess interp pp raw_signals =
     (case segment (rp_at_right pp) raw_signals of
        Inl e \<Rightarrow> Inl e
      | Inr (signals, ref_pulses) \<Rightarrow> vectorize interp pp signals ref_pulses)"

text \<open>
  Linear interpolation of a pixel-indexed signal on \<open>total_obs\<close> equally spaced positions
  of its domain, for signals of at least two points: an instance of \<open>interp\<close>.
\<close>

definition lin_interp :: "int list \<Rightarrow> rat \<Rightarrow> rat" where
  "lin_interp ys p =
     (let k = min (nat \<lfloor>p\<rfloor>) (length ys - 2)
      in of_int (ys ! k) + (p - of_nat k) * of_int (ys ! (k + 1) - ys ! k))"

definition interp1d :: "int list \<Rightarrow> nat \<Rightarrow> error + rat list" where
  "interp1d ys total_obs =
     (if length ys < 2 then Inl ValueError
      else Inr (map (\<lambda>j. lin_interp ys (if total_obs = 1 then 0
                          else of_nat j * of_nat (length ys - 1) / of_nat (total_obs - 1)))
                 [0..<total_obs]))"

text \<open>The rounded voltages of the \<open>c\<close>-th slice of \<open>obs_num\<close> samples of a resampled row,
  scaled with the row's reference pulse \<open>(volt_0, volt_1)\<close>.\<close>

definition cell_samples :: "int \<times> int \<Rightarrow> rat list \<Rightarrow> nat \<Rightarrow> nat \<Rightarrow> rat list" where
  "cell_samples pulse row c obs_num =
     map (\<lambda>v. np_round4 ((of_int (fst pulse) - v) * (1 / of_int (fst pulse - snd pulse))))
       (take obs_num (drop (c * obs_num) row))"

text \<open>The columns of a table in the order of its header.\<close>

definition table_columns :: "error + table \<Rightarrow> error + rat option list list" where
  "table_columns res = (case res of Inl e \<Rightarrow> Inl e | Inr t \<Rightarrow> Inr (map t STANDARD))"

definition negate_column :: "rat option list \<Rightarrow> rat option list" where
  "negate_column column = map (map_option uminus) column"

text \<open>The number of entries of a column that are not missing.\<close>

definition non_missing :: "rat option list \<Rightarrow> nat" where
  "non_missing column = length (filter (\<lambda>v. case v of None \<Rightarrow> False | Some _ \<Rightarrow> True) column)"

subsection \<open>The extractor of the digitizer (Digitizer.\_\_init\_\_)\<close>


subsection \<open>Vocabulary of the properties of the cache\<close>

text \<open>
  The state with which a cluster without cached state is entered; the cell of a key (a
  default where there is none); the cost of the transition from a previous cluster; the
  cell that the best previous cluster determines; a column whose left neighbour has
  clusters; the invariant of the loop over the columns; the vertical gap in the words of
  the specification; a chart with an empty column.
\<close>

definition init_stats :: "nat \<Rightarrow> cluster \<Rightarrow> cell option list" where
  "init_stats n pc = replicate n (Some (Cell (centre pc) None 1 0))"

definition the_cell :: "cache \<Rightarrow> node \<Rightarrow> nat \<Rightarrow> cell" where
  "the_cell cache node roi_i =
     (case cache_cell cache node roi_i of Inr q \<Rightarrow> q | Inl e \<Rightarrow> Cell 0 None 0 0)"

definition trans_cost :: "cache \<Rightarrow> nat \<Rightarrow> nat list \<Rightarrow> nat \<Rightarrow> cluster \<Rightarrow> nat \<Rightarrow> cluster \<Rightarrow> rat" where
  "trans_cost cache N rois col c roi_i pc =
     cell_score (the_cell cache (col - 1, pc) roi_i)
       + of_int \<bar>centre pc - int (rois ! roi_i)\<bar>
       + of_nat N / 10 * of_nat (gap pc c)"

definition best_link ::
  "cache \<Rightarrow> nat \<Rightarrow> nat list \<Rightarrow> cluster list \<Rightarrow> nat \<Rightarrow> cluster \<Rightarrow> nat \<Rightarrow> cell \<Rightarrow> bool" where
  "best_link cache N rois pcs col c roi_i q \<longleftrightarrow>
     list_all (\<lambda>pc. case cache_cell cache (col - 1, pc) roi_i of Inr p \<Rightarrow> True | Inl e \<Rightarrow> False) pcs
     \<and> (case py_min_key (trans_cost cache N rois col c roi_i) pcs of
          None \<Rightarrow> False
        | Some best \<Rightarrow>
            q = Cell (centre best) (Some (col - 1, best))
                  (cell_len (the_cell cache (col - 1, best) roi_i) + 1)
                  (trans_cost cache N rois col c roi_i best))"

definition linked :: "(nat \<Rightarrow> cluster list) \<Rightarrow> nat \<Rightarrow> bool" where
  "linked K x \<longleftrightarrow> 1 \<le> x \<and> K (x - 1) \<noteq> []"

definition dp_inv :: "nat \<Rightarrow> nat \<Rightarrow> nat list \<Rightarrow> (nat \<Rightarrow> cluster list) \<Rightarrow> nat \<Rightarrow> cache \<Rightarrow> bool" where
  "dp_inv n N rois K k cache \<longleftrightarrow>
     (\<forall>x cl stats. map_of cache (x, cl) = Some stats \<longrightarrow>
        x < k \<and> cl \<in> set (K x) \<and> length stats = n)
     \<and> (\<forall>x cl stats. map_of cache (x, cl) = Some stats \<longrightarrow> linked K x \<longrightarrow>
          (\<forall>i<n. \<exists>q. stats ! i = Some q \<and> best_link cache N rois (K (x - 1)) x cl i q))
     \<and> (\<forall>x cl stats. map_of cache (x, cl) = Some stats \<longrightarrow> \<not> linked K x \<longrightarrow>
          stats = init_stats n cl \<and> x + 1 < k \<and> K (x + 1) \<noteq> [] \<and> 0 < n)
     \<and> (\<forall>x cl. linked K x \<longrightarrow> x < k \<longrightarrow> cl \<in> set (K x) \<longrightarrow> map_of cache (x, cl) \<noteq> None)
     \<and> (cache \<noteq> [] \<and> 0 < n \<longrightarrow> n \<le> length rois)"


definition ex_gap_chart :: raster where
  "ex_gap_chart = [[0, 0, 255, 0, 0], [255, 255, 255, 255, 0], [0, 0, 255, 255, 255]]"

definition cells_at :: "error + cache \<Rightarrow> node \<Rightarrow> nat \<Rightarrow> error + cell" where
  "cells_at res node roi_i =
     (case res of Inl e \<Rightarrow> Inl e | Inr cache \<Rightarrow> cache_cell cache node roi_i)"

subsection \<open>A small chart\<close>

text \<open>Three rows of four samples on a 3 x 4 layout, with reference pulses of ten pixels;
  a fourth row for a rhythm strip.\<close>

definition ex_pp :: postprocessor where
  "ex_pp = \<lparr>layout = (3, 4), rhythm = [], rp_at_right = True, cabrera = False,
            interpolation = None\<rparr>"

definition ex_signals :: "point list list" where
  "ex_signals =
     [[Point 0 10, Point 1 10, Point 2 10, Point 3 10],
      [Point 0 8, Point 1 8, Point 2 8, Point 3 8],
      [Point 0 6, Point 1 6, Point 2 6, Point 3 6]]"

definition ex_pulses :: "(int \<times> int) list" where
  "ex_pulses = [(10, 0), (10, 0), (10, 0)]"

definition ex_rhythm_signal :: "point list" where
  "ex_rhythm_signal = [Point 0 4, Point 1 4, Point 2 4, Point 3 4]"

text \<open>A single strip (layout 1 x 12) whose reference pulse, at the right, is flat.\<close>

definition ex_strip_pp :: postprocessor where
  "ex_strip_pp = \<lparr>layout = (1, 12), rhythm = [], rp_at_right = True, cabrera = False,
                  interpolation = None\<rparr>"

definition ex_flat_strip :: "point list list" where
  "ex_flat_strip = [[Point 0 50, Point 1 50, Point 2 50, Point 3 60, Point 4 50]]"

text \<open>The number of non-missing entries of every column, in the order of the header.\<close>

definition non_missing_counts :: "error + table \<Rightarrow> error + nat list" where
  "non_missing_counts res =
     (case res of Inl e \<Rightarrow> Inl e | Inr t \<Rightarrow> Inr (map (\<lambda>ld. non_missing (t ld)) STANDARD))"





section \<open>Properties\<close>

lemma window_pixels_rows:
  "window_pixels ecg i = concat (map (take (width ecg)) (take 9 (drop i ecg)))"
  by (simp add: window_pixels_def WINDOW_def)

lemma get_stds_length: "length (get_stds std ecg) = height ecg"
proof -
  have "length (foldl (\<lambda>stds i. stds[i + SHIFT := std (window_pixels ecg i)]) s js) = length s"
    for s :: "real list" and js
    by (induction js arbitrary: s) simp_all
  then show ?thesis by (simp add: get_stds_def)
qed

lemma foldl_update_nth:
  "distinct js \<Longrightarrow> j \<in> set js \<Longrightarrow> j + k < length s \<Longrightarrow>
   foldl (\<lambda>stds i. stds[i + k := f i]) s js ! (j + k) = f j"
proof (induction js arbitrary: s)
  case Nil
  then show ?case by simp
next
  case (Cons a js)
  show ?case
  proof (cases "j \<in> set js")
    case True
    with Cons show ?thesis by simp
  next
    case False
    with Cons.prems have ja: "j = a" by simp
    have keep: "foldl (\<lambda>stds i. stds[i + k := f i]) t js ! (a + k) = t ! (a + k)"
      if "a \<notin> set js" for t
      using that by (induction js arbitrary: t) simp_all
    from Cons.prems ja show ?thesis by (simp add: keep)
  qed
qed

text \<open>
  C7. The value stored at \<open>stds[i + 4]\<close> is the standard deviation of the pixels of rows
  \<open>i .. i + 8\<close>: the slice \<open>ecg[i : i + WINDOW - 1]\<close> holds nine rows, not the ten that
  \<open>WINDOW = 10\<close> and the loop bound \<open>height - WINDOW + 1\<close> announce. On a chart of ten
  rows whose only ink is in row 9, the window of \<open>i = 0\<close> is all paper: row 9 is not read.
\<close>

theorem get_roi_window_nine_rows:
  "get_stds std [[255],[255],[255],[255],[255],[255],[255],[255],[255],[0]] ! (0 + 4)
     = std [255,255,255,255,255,255,255,255,255]
   \<and> window_pixels [[255],[255],[255],[255],[255],[255],[255],[255],[255],[0]] 0
     = [255,255,255,255,255,255,255,255,255]
   \<and> length (window_pixels [[255],[255],[255],[255],[255],[255],[255],[255],[255],[0]] 0)
     = 9 * width [[255],[255],[255],[255],[255],[255],[255],[255],[255],[0]]"
  by (simp add: get_stds_def window_pixels_def WINDOW_def SHIFT_def height_def width_def)

subsection \<open>The sample table\<close>

lemma map_err_Inr:
  "map_err f xs = Inr ys \<Longrightarrow> length ys = length xs \<and> (\<forall>k<length xs. f (xs ! k) = Inr (ys ! k))"
proof (induction xs arbitrary: ys)
  case Nil
  then show ?case by simp
next
  case (Cons a xs)
  then obtain b bs where b: "f a = Inr b" and bs: "map_err f xs = Inr bs" and ys: "ys = b # bs"
    by (auto split: sum.splits)
  from Cons.IH [OF bs] b ys show ?case
    by (auto simp: nth_Cons split: nat.splits)
qed

lemma fold_err_columns:
  assumes "fold_err (\<lambda>(i, ld) t. case F i ld of Inl e \<Rightarrow> Inl e
              | Inr (c, sg) \<Rightarrow> Inr (t(ld := write_column c sg (t ld)))) xs t0 = Inr t"
    and "distinct (map snd xs)"
  shows "(\<forall>p \<in> set xs. \<exists>c sg. F (fst p) (snd p) = Inr (c, sg) \<and> t (snd p) = write_column c sg (t0 (snd p)))
       \<and> (\<forall>ld. ld \<notin> snd ` set xs \<longrightarrow> t ld = t0 ld)"
  using assms
proof (induction xs arbitrary: t0)
  case Nil
  then show ?case by simp
next
  case (Cons p xs)
  obtain i ld where p: "p = (i, ld)" by (cases p)
  from Cons.prems(1) p obtain c sg where F: "F i ld = Inr (c, sg)"
    and rest: "fold_err (\<lambda>(i, ld) t. case F i ld of Inl e \<Rightarrow> Inl e
              | Inr (c, sg) \<Rightarrow> Inr (t(ld := write_column c sg (t ld)))) xs (t0(ld := write_column c sg (t0 ld))) = Inr t"
    by (auto split: sum.splits)
  from Cons.prems(2) p have d: "distinct (map snd xs)" and nin: "ld \<notin> snd ` set xs" by auto
  from Cons.IH [OF rest d] have
    ih1: "\<forall>p \<in> set xs. \<exists>c' sg'. F (fst p) (snd p) = Inr (c', sg') \<and> t (snd p) = write_column c' sg' ((t0(ld := write_column c sg (t0 ld))) (snd p))"
    and ih2: "\<forall>l. l \<notin> snd ` set xs \<longrightarrow> t l = (t0(ld := write_column c sg (t0 ld))) l"
    by blast+
  from ih2 nin have tl: "t ld = write_column c sg (t0 ld)" by simp
  have "\<forall>q \<in> set xs. \<exists>c' sg'. F (fst q) (snd q) = Inr (c', sg') \<and> t (snd q) = write_column c' sg' (t0 (snd q))"
  proof
    fix q assume q: "q \<in> set xs"
    with nin have "snd q \<noteq> ld" by force
    with ih1 q show "\<exists>c' sg'. F (fst q) (snd q) = Inr (c', sg') \<and> t (snd q) = write_column c' sg' (t0 (snd q))"
      by auto
  qed
  with tl F p ih2 show ?case by auto
qed

lemma write_column_empty:
  assumes "length sg * (c + 1) \<le> T"
  shows "write_column c sg (replicate T None)
       = replicate (length sg * c) None @ map Some sg @ replicate (T - length sg * (c + 1)) None"
proof (rule nth_equalityI)
  show "length (write_column c sg (replicate T None)) =
    length (replicate (length sg * c) None @ map Some sg @ replicate (T - length sg * (c + 1)) None)"
    using assms by (simp add: write_column_def)
next
  fix j assume "j < length (write_column c sg (replicate T None))"
  then have j: "j < T" by (simp add: write_column_def)
  show "write_column c sg (replicate T None) ! j =
         (replicate (length sg * c) None @ map Some sg @ replicate (T - length sg * (c + 1)) None) ! j"
    using j assms by (auto simp: write_column_def nth_append)
qed

lemma non_missing_append: "non_missing (xs @ ys) = non_missing xs + non_missing ys"
  by (simp add: non_missing_def)

lemma non_missing_replicate_None: "non_missing (replicate k None) = 0"
  by (simp add: non_missing_def)

lemma non_missing_map_Some: "non_missing (map Some xs) = length xs"
  by (induction xs) (simp_all add: non_missing_def)

lemma non_missing_write_column:
  "length sg * (c + 1) \<le> T \<Longrightarrow> non_missing (write_column c sg (replicate T None)) = length sg"
  by (simp add: write_column_empty non_missing_append non_missing_replicate_None non_missing_map_Some)

lemma write_column_negate:
  "write_column c (map uminus sg) (replicate T None) = negate_column (write_column c sg (replicate T None))"
  by (auto simp: write_column_def negate_column_def)

lemma interp_rows_Inr:
  assumes "interp_rows interp T signals = Inr rows"
  shows "length rows = length signals \<and> (\<forall>k<length signals. length (rows ! k) = T)"
proof -
  from map_err_Inr [OF assms [unfolded interp_rows_def]]
  have len: "length rows = length signals"
    and each: "\<forall>k<length signals. (case interp (map y_coord (signals ! k)) T of Inl e \<Rightarrow> Inl e
        | Inr row \<Rightarrow> if length row = T then Inr row else Inl ValueError) = Inr (rows ! k)"
    by blast+
  have "length (rows ! k) = T" if "k < length signals" for k
  proof -
    from each that have "(case interp (map y_coord (signals ! k)) T of Inl e \<Rightarrow> Inl e
        | Inr row \<Rightarrow> if length row = T then Inr row else Inl ValueError) = Inr (rows ! k)"
      by blast
    then show ?thesis
      by (cases "interp (map y_coord (signals ! k)) T") (auto split: if_splits)
  qed
  with len show ?thesis by blast
qed

lemma distinct_STANDARD: "distinct STANDARD"
  by (simp add: STANDARD_def)

lemma distinct_CABRERA: "distinct CABRERA"
  by (simp add: CABRERA_def)

lemma length_STANDARD: "length STANDARD = 12"
  by (simp add: STANDARD_def)

lemma length_CABRERA: "length CABRERA = 12"
  by (simp add: CABRERA_def)

lemma lead_order_props: "distinct (lead_order pp) \<and> length (lead_order pp) = 12"
  by (simp add: lead_order_def distinct_STANDARD distinct_CABRERA length_STANDARD length_CABRERA)

lemma vectorize_Inr:
  assumes "vectorize interp pp signals ref_pulses = Inr t"
  shows "\<exists>rows. interp_rows interp (total_obs_of pp signals) signals = Inr rows
           \<and> signals \<noteq> [] \<and> 0 < snd (layout pp)
           \<and> (\<forall>i<12. \<exists>c sg. lead_signal pp rows ref_pulses i (lead_order pp ! i) = Inr (c, sg)
                  \<and> t (lead_order pp ! i) = write_column c sg (replicate (total_obs_of pp signals) None))"
proof -
  from assms obtain rows where rows: "interp_rows interp (total_obs_of pp signals) signals = Inr rows"
    and ne: "signals \<noteq> []" and nc: "0 < snd (layout pp)"
    and fold: "fold_err (\<lambda>(i, ld) ecg_data.
                       case lead_signal pp rows ref_pulses i ld of
                         Inl e \<Rightarrow> Inl e
                       | Inr (c, signal) \<Rightarrow>
                           Inr (ecg_data(ld := write_column c signal (ecg_data ld))))
                     (enumerate 0 (lead_order pp))
                     (\<lambda>ld. replicate (total_obs_of pp signals) None) = Inr t"
    by (auto simp: vectorize_def Let_def split: if_splits sum.splits)
  have d: "distinct (map snd (enumerate 0 (lead_order pp)))"
    using lead_order_props by simp
  from fold_err_columns [OF fold d]
  have all: "\<forall>p \<in> set (enumerate 0 (lead_order pp)). \<exists>c sg. lead_signal pp rows ref_pulses (fst p) (snd p) = Inr (c, sg)
       \<and> t (snd p) = write_column c sg (replicate (total_obs_of pp signals) None)"
    by blast
  have "\<exists>c sg. lead_signal pp rows ref_pulses i (lead_order pp ! i) = Inr (c, sg)
                  \<and> t (lead_order pp ! i) = write_column c sg (replicate (total_obs_of pp signals) None)"
    if "i < 12" for i
  proof -
    from that lead_order_props have "(i, lead_order pp ! i) \<in> set (enumerate 0 (lead_order pp))"
      by (simp add: in_set_enumerate_eq)
    with all show ?thesis by fastforce
  qed
  with rows ne nc show ?thesis by blast
qed


lemma lead_signal_Inr:
  assumes "lead_signal pp rows refs i ld = Inr (c, sg)"
  shows "c = snd (lead_cell (fst (layout pp)) (rhythm pp) i ld)
       \<and> fst (lead_cell (fst (layout pp)) (rhythm pp) i ld) < length refs
       \<and> fst (lead_cell (fst (layout pp)) (rhythm pp) i ld) < length rows
       \<and> fst (refs ! fst (lead_cell (fst (layout pp)) (rhythm pp) i ld))
           \<noteq> snd (refs ! fst (lead_cell (fst (layout pp)) (rhythm pp) i ld))
       \<and> sg = (if cabrera pp \<and> ld = Lead_aVR then map uminus else id)
               (cell_samples (refs ! fst (lead_cell (fst (layout pp)) (rhythm pp) i ld))
                  (rows ! fst (lead_cell (fst (layout pp)) (rhythm pp) i ld)) c
                  (length (rows ! fst (lead_cell (fst (layout pp)) (rhythm pp) i ld))
                     div (if ld \<in> set (rhythm pp) then 1 else snd (layout pp))))"
  using assms
  by (auto simp: lead_signal_def Let_def cell_samples_def split: if_splits)

lemma length_cell_samples:
  "length (cell_samples pulse row c obs_num) = min obs_num (length row - c * obs_num)"
  by (simp add: cell_samples_def min.commute)

lemma length_cell_samples_panel:
  assumes "c < NCOLS"
  shows "length (cell_samples pulse row c (length row div NCOLS)) = length row div NCOLS"
proof -
  have "(c + 1) * (length row div NCOLS) \<le> NCOLS * (length row div NCOLS)"
    using assms by (intro mult_le_mono1) simp
  also have "\<dots> \<le> length row" by simp
  finally show ?thesis by (simp add: length_cell_samples)
qed

lemma vectorize_lead_column:
  assumes v: "vectorize interp pp signals refs = Inr t"
    and rows: "interp_rows interp (total_obs_of pp signals) signals = Inr rows"
    and i: "i < 12"
  shows "fst (lead_cell (fst (layout pp)) (rhythm pp) i (lead_order pp ! i)) < length rows
       \<and> length (rows ! fst (lead_cell (fst (layout pp)) (rhythm pp) i (lead_order pp ! i)))
           = total_obs_of pp signals
       \<and> t (lead_order pp ! i) =
           write_column (snd (lead_cell (fst (layout pp)) (rhythm pp) i (lead_order pp ! i)))
             ((if cabrera pp \<and> lead_order pp ! i = Lead_aVR then map uminus else id)
                (cell_samples (refs ! fst (lead_cell (fst (layout pp)) (rhythm pp) i (lead_order pp ! i)))
                   (rows ! fst (lead_cell (fst (layout pp)) (rhythm pp) i (lead_order pp ! i)))
                   (snd (lead_cell (fst (layout pp)) (rhythm pp) i (lead_order pp ! i)))
                   (total_obs_of pp signals
                      div (if lead_order pp ! i \<in> set (rhythm pp) then 1 else snd (layout pp)))))
             (replicate (total_obs_of pp signals) None)"
proof -
  from vectorize_Inr [OF v] rows i obtain c sg where
    ls: "lead_signal pp rows refs i (lead_order pp ! i) = Inr (c, sg)"
    and tl: "t (lead_order pp ! i) = write_column c sg (replicate (total_obs_of pp signals) None)"
    by auto
  note f = lead_signal_Inr [OF ls]
  from f have r: "fst (lead_cell (fst (layout pp)) (rhythm pp) i (lead_order pp ! i)) < length rows"
    by blast
  with interp_rows_Inr [OF rows]
  have len: "length (rows ! fst (lead_cell (fst (layout pp)) (rhythm pp) i (lead_order pp ! i)))
           = total_obs_of pp signals"
    by simp
  from f tl r len show ?thesis by simp
qed

lemma total_obs_of_cabrera [simp]: "total_obs_of (pp\<lparr>cabrera := b\<rparr>) signals = total_obs_of pp signals"
  by (simp add: total_obs_of_def)

lemma lead_in_orders: "\<exists>i<12. \<exists>j<12. CABRERA ! i = ld \<and> STANDARD ! j = ld"
proof (cases ld)
  case Lead_I then show ?thesis by (intro exI [of _ 1] exI [of _ 0] conjI) (simp_all add: CABRERA_def STANDARD_def)
next
  case Lead_II then show ?thesis by (intro exI [of _ 3] exI [of _ 1] conjI) (simp_all add: CABRERA_def STANDARD_def)
next
  case Lead_III then show ?thesis by (intro exI [of _ 5] exI [of _ 2] conjI) (simp_all add: CABRERA_def STANDARD_def)
next
  case Lead_aVR then show ?thesis by (intro exI [of _ 2] exI [of _ 3] conjI) (simp_all add: CABRERA_def STANDARD_def)
next
  case Lead_aVL then show ?thesis by (intro exI [of _ 0] exI [of _ 4] conjI) (simp_all add: CABRERA_def STANDARD_def)
next
  case Lead_aVF then show ?thesis by (intro exI [of _ 4] exI [of _ 5] conjI) (simp_all add: CABRERA_def STANDARD_def)
next
  case Lead_V1 then show ?thesis by (intro exI [of _ 6] exI [of _ 6] conjI) (simp_all add: CABRERA_def STANDARD_def)
next
  case Lead_V2 then show ?thesis by (intro exI [of _ 7] exI [of _ 7] conjI) (simp_all add: CABRERA_def STANDARD_def)
next
  case Lead_V3 then show ?thesis by (intro exI [of _ 8] exI [of _ 8] conjI) (simp_all add: CABRERA_def STANDARD_def)
next
  case Lead_V4 then show ?thesis by (intro exI [of _ 9] exI [of _ 9] conjI) (simp_all add: CABRERA_def STANDARD_def)
next
  case Lead_V5 then show ?thesis by (intro exI [of _ 10] exI [of _ 10] conjI) (simp_all add: CABRERA_def STANDARD_def)
next
  case Lead_V6 then show ?thesis by (intro exI [of _ 11] exI [of _ 11] conjI) (simp_all add: CABRERA_def STANDARD_def)
qed

lemma cabrera_columns_aux:
  assumes vc: "vectorize interp (pp\<lparr>cabrera := True\<rparr>) signals refs = Inr tc"
    and vs: "vectorize interp (pp\<lparr>cabrera := False\<rparr>) signals refs = Inr ts"
    and i: "i < 12" and j: "j < 12"
    and cell: "lead_cell (fst (layout pp)) (rhythm pp) i (CABRERA ! i)
             = lead_cell (fst (layout pp)) (rhythm pp) j (STANDARD ! j)"
    and rh: "CABRERA ! i \<in> set (rhythm pp) \<longleftrightarrow> STANDARD ! j \<in> set (rhythm pp)"
  shows "tc (CABRERA ! i) = (if CABRERA ! i = Lead_aVR then negate_column (ts (STANDARD ! j))
                             else ts (STANDARD ! j))"
proof -
  from vectorize_Inr [OF vc] obtain rows where
    rows: "interp_rows interp (total_obs_of pp signals) signals = Inr rows" by auto
  from vectorize_lead_column [OF vc _ i] rows
  have c: "tc (CABRERA ! i) =
           write_column (snd (lead_cell (fst (layout pp)) (rhythm pp) i (CABRERA ! i)))
             ((if CABRERA ! i = Lead_aVR then map uminus else id)
                (cell_samples (refs ! fst (lead_cell (fst (layout pp)) (rhythm pp) i (CABRERA ! i)))
                   (rows ! fst (lead_cell (fst (layout pp)) (rhythm pp) i (CABRERA ! i)))
                   (snd (lead_cell (fst (layout pp)) (rhythm pp) i (CABRERA ! i)))
                   (total_obs_of pp signals
                      div (if CABRERA ! i \<in> set (rhythm pp) then 1 else snd (layout pp)))))
             (replicate (total_obs_of pp signals) None)"
    by (simp add: lead_order_def)
  from vectorize_lead_column [OF vs _ j] rows
  have s: "ts (STANDARD ! j) =
           write_column (snd (lead_cell (fst (layout pp)) (rhythm pp) j (STANDARD ! j)))
                (cell_samples (refs ! fst (lead_cell (fst (layout pp)) (rhythm pp) j (STANDARD ! j)))
                   (rows ! fst (lead_cell (fst (layout pp)) (rhythm pp) j (STANDARD ! j)))
                   (snd (lead_cell (fst (layout pp)) (rhythm pp) j (STANDARD ! j)))
                   (total_obs_of pp signals
                      div (if STANDARD ! j \<in> set (rhythm pp) then 1 else snd (layout pp))))
             (replicate (total_obs_of pp signals) None)"
    by (simp add: lead_order_def)
  from c s cell rh show ?thesis
    by (simp add: write_column_negate)
qed

text \<open>
  C6 (amended). Two runs on the same signals and reference pulses that differ only in
  \<open>cabrera\<close>, both successful. The Cabrera run reads the lead at position \<open>i\<close> of the
  Cabrera order from the grid cell from which the standard run reads the lead at position
  \<open>i\<close> of the standard order: for leads that are not rhythm leads, the column of
  \<open>CABRERA ! i\<close> in the Cabrera run is the column of \<open>STANDARD ! i\<close> in the standard run,
  negated when the lead is aVR (so aVR of the Cabrera run is the negated III of the standard
  run). The column of a rhythm lead is the same in both runs, negated for aVR, and the
  columns V1 to V6 are the same.
\<close>

theorem cabrera_remaps_limb_leads:
  assumes vc: "vectorize interp (pp\<lparr>cabrera := True\<rparr>) signals refs = Inr tc"
    and vs: "vectorize interp (pp\<lparr>cabrera := False\<rparr>) signals refs = Inr ts"
  shows "(\<forall>i<12. CABRERA ! i \<notin> set (rhythm pp) \<and> STANDARD ! i \<notin> set (rhythm pp) \<longrightarrow>
            tc (CABRERA ! i) = (if CABRERA ! i = Lead_aVR then negate_column (ts (STANDARD ! i))
                                else ts (STANDARD ! i)))
       \<and> (\<forall>ld. ld \<in> set (rhythm pp) \<longrightarrow>
            tc ld = (if ld = Lead_aVR then negate_column (ts ld) else ts ld))
       \<and> (\<forall>i. 6 \<le> i \<and> i < 12 \<longrightarrow> tc (STANDARD ! i) = ts (STANDARD ! i))"
proof (intro conjI allI impI)
  fix i assume i: "i < 12"
    and nr: "CABRERA ! i \<notin> set (rhythm pp) \<and> STANDARD ! i \<notin> set (rhythm pp)"
  then show "tc (CABRERA ! i) = (if CABRERA ! i = Lead_aVR then negate_column (ts (STANDARD ! i))
                                else ts (STANDARD ! i))"
    by (intro cabrera_columns_aux [OF vc vs]) (simp_all add: lead_cell_def)
next
  fix ld assume rh: "ld \<in> set (rhythm pp)"
  from lead_in_orders [of ld] obtain i j where i: "i < 12" and j: "j < 12"
    and ci: "CABRERA ! i = ld" and sj: "STANDARD ! j = ld" by blast
  from cabrera_columns_aux [OF vc vs i j] rh ci sj
  show "tc ld = (if ld = Lead_aVR then negate_column (ts ld) else ts ld)"
    by (simp add: lead_cell_def)
next
  fix i :: nat assume i: "6 \<le> i \<and> i < 12"
  then have eq: "CABRERA ! i = STANDARD ! i" and nv: "STANDARD ! i \<noteq> Lead_aVR"
    by (auto simp: CABRERA_def STANDARD_def nth_Cons split: nat.splits)
  from i have "tc (CABRERA ! i) = (if CABRERA ! i = Lead_aVR then negate_column (ts (STANDARD ! i))
                                else ts (STANDARD ! i))"
    by (intro cabrera_columns_aux [OF vc vs]) (simp_all add: lead_cell_def eq)
  with eq nv show "tc (STANDARD ! i) = ts (STANDARD ! i)" by simp
qed

lemma index_of_less: "a \<in> set xs \<Longrightarrow> index_of a xs < length xs"
  by (induction xs) auto

lemma length_signed [simp]: "length ((if b then map uminus else id) (xs::rat list)) = length xs"
  by simp

lemma vectorize_counts:
  assumes v: "vectorize interp pp signals refs = Inr t" and i: "i < 12"
  shows "length (t (lead_order pp ! i)) = total_obs_of pp signals
       \<and> (lead_order pp ! i \<in> set (rhythm pp) \<longrightarrow>
            non_missing (t (lead_order pp ! i)) = total_obs_of pp signals)
       \<and> (lead_order pp ! i \<notin> set (rhythm pp) \<and> i div fst (layout pp) < snd (layout pp) \<longrightarrow>
            non_missing (t (lead_order pp ! i)) = total_obs_of pp signals div snd (layout pp))"
proof -
  from vectorize_Inr [OF v] obtain rows where
    rows: "interp_rows interp (total_obs_of pp signals) signals = Inr rows" by auto
  define ld where "ld = lead_order pp ! i"
  define T where "T = total_obs_of pp signals"
  define r where "r = fst (lead_cell (fst (layout pp)) (rhythm pp) i ld)"
  define c where "c = snd (lead_cell (fst (layout pp)) (rhythm pp) i ld)"
  define obs where "obs = T div (if ld \<in> set (rhythm pp) then 1 else snd (layout pp))"
  define sg where "sg = (if cabrera pp \<and> ld = Lead_aVR then map uminus else id)
                          (cell_samples (refs ! r) (rows ! r) c obs)"
  from vectorize_lead_column [OF v rows i]
  have len: "length (rows ! r) = T" and col: "t ld = write_column c sg (replicate T None)"
    by (simp_all add: ld_def T_def r_def c_def obs_def sg_def)
  have lsg: "length sg = min obs (T - c * obs)"
    using len by (simp add: sg_def length_cell_samples)
  have l: "length (t ld) = T"
    using col by (simp add: write_column_def)
  have rh: "non_missing (t ld) = T" if "ld \<in> set (rhythm pp)"
  proof -
    from that have "c = 0" "obs = T"
      by (simp_all add: c_def obs_def lead_cell_def)
    with lsg have "length sg = T" by simp
    with col \<open>c = 0\<close> show ?thesis
      by (simp add: non_missing_write_column)
  qed
  have pa: "non_missing (t ld) = T div snd (layout pp)"
    if "ld \<notin> set (rhythm pp) \<and> i div fst (layout pp) < snd (layout pp)"
  proof -
    from that have c: "c < snd (layout pp)" and o: "obs = T div snd (layout pp)"
      by (simp_all add: c_def obs_def lead_cell_def)
    have "(c + 1) * obs \<le> snd (layout pp) * obs"
      using c by (intro mult_le_mono1) simp
    also have "\<dots> \<le> T" by (simp add: o)
    finally have le: "(c + 1) * obs \<le> T" .
    then have "c * obs + obs \<le> T" by simp
    with lsg have m: "length sg = obs" by simp
    from le have "length sg * (c + 1) \<le> T"
      by (simp add: m mult.commute)
    with col m o show ?thesis
      by (simp add: non_missing_write_column)
  qed
  from l rh pa show ?thesis
    unfolding ld_def T_def by blast
qed

text \<open>
  C8 (amended). With \<open>interpolation = k\<close> every column of a successful run has \<open>k\<close>
  entries; the column of a rhythm lead has \<open>k\<close> non-missing entries, and the column of a
  lead of the main panel, read from a grid column \<open>i div rows < cols\<close>, has \<open>k div cols\<close>.
\<close>

theorem interpolation_counts:
  assumes v: "vectorize interp pp signals refs = Inr t"
    and k: "interpolation pp = Some k"
    and i: "i < 12"
  shows "length (t (lead_order pp ! i)) = k
       \<and> (lead_order pp ! i \<in> set (rhythm pp) \<longrightarrow> non_missing (t (lead_order pp ! i)) = k)
       \<and> (lead_order pp ! i \<notin> set (rhythm pp) \<and> i div fst (layout pp) < snd (layout pp) \<longrightarrow>
            non_missing (t (lead_order pp ! i)) = k div snd (layout pp))"
proof -
  from k have "total_obs_of pp signals = k"
    by (simp add: total_obs_of_def)
  with vectorize_counts [OF v i] show ?thesis by simp
qed



lemma fold_err_fails:
  assumes "\<forall>a\<in>set xs. \<forall>s. (\<exists>s'. f a s = Inr s') \<or> f a s = Inl E"
    and "\<exists>a\<in>set xs. \<forall>s. f a s = Inl E"
  shows "fold_err f xs s = Inl E"
  using assms
proof (induction xs arbitrary: s)
  case Nil
  then show ?case by simp
next
  case (Cons a xs)
  show ?case
  proof (cases "f a s")
    case (Inl e)
    from Cons.prems(1) have "(\<exists>s'. f a s = Inr s') \<or> f a s = Inl E" by simp
    with Inl have "e = E" by simp
    with Inl show ?thesis by simp
  next
    case (Inr s')
    with Cons.prems(2) have ex: "\<exists>b\<in>set xs. \<forall>s. f b s = Inl E" by force
    from Cons.prems(1) have "\<forall>a\<in>set xs. \<forall>s. (\<exists>s'. f a s = Inr s') \<or> f a s = Inl E" by simp
    from Cons.IH [OF this ex] Inr show ?thesis by simp
  qed
qed

lemma segment_lengths:
  assumes "segment rp raw_signals = Inr (signals, refs)"
  shows "length signals = length raw_signals \<and> length refs = length raw_signals"
proof -
  from assms obtain f :: "nat \<Rightarrow> error + (int \<times> int)" and g :: "point list \<Rightarrow> point list"
    where m: "map_err f [0..<length raw_signals] = Inr refs" and s: "signals = map g raw_signals"
    by (auto simp: segment_def Let_def split: if_splits sum.splits option.splits)
  from map_err_Inr [OF m] s show ?thesis by simp
qed

lemma lead_row_in_range:
  assumes "0 < NROWS"
  shows "fst (lead_cell NROWS rhythm_leads j ld) < NROWS + length rhythm_leads"
proof (cases "ld \<in> set rhythm_leads")
  case True
  with index_of_less [of ld rhythm_leads] show ?thesis by (simp add: lead_cell_def)
next
  case False
  have "j mod NROWS < NROWS" using assms by simp
  with False show ?thesis by (simp add: lead_cell_def trans_less_add1)
qed

lemma lead_signal_cases:
  assumes nr: "0 < fst (layout pp)" and nc: "0 < snd (layout pp)"
    and lr: "length refs = fst (layout pp) + length (rhythm pp)"
    and lw: "length rows = length refs"
  shows "(\<exists>c sg. lead_signal pp rows refs j ld = Inr (c, sg))
       \<or> lead_signal pp rows refs j ld = Inl CalibrationError"
proof -
  have "fst (lead_cell (fst (layout pp)) (rhythm pp) j ld) < length refs"
    using lead_row_in_range [OF nr] lr by simp
  with nr nc lw show ?thesis
    by (auto simp: lead_signal_def Let_def)
qed

lemma lead_signal_collapsed:
  assumes "fst (lead_cell (fst (layout pp)) (rhythm pp) j ld) < length refs"
    and "0 < fst (layout pp)"
    and "fst (refs ! fst (lead_cell (fst (layout pp)) (rhythm pp) j ld))
       = snd (refs ! fst (lead_cell (fst (layout pp)) (rhythm pp) j ld))"
  shows "lead_signal pp rows refs j ld = Inl CalibrationError"
  using assms by (simp add: lead_signal_def Let_def)

text \<open>
  C5. Segmentation has produced the reference pulses of the \<open>rows + |rhythm|\<close> rows and
  the rows have been resampled. If the row from which some lead is read has
  \<open>volt_0 = volt_1\<close>, then \<open>postprocess\<close> raises the DigitizationError of the reference
  pulses (CalibrationError) and returns no table; the loop body of that lead raises before
  it scales a sample, and a loop body that returns a signal has \<open>volt_0 \<noteq> volt_1\<close>.
\<close>

theorem collapsed_pulse_raises:
  assumes seg: "segment (rp_at_right pp) raw_signals = Inr (signals, refs)"
    and n: "length raw_signals = fst (layout pp) + length (rhythm pp)"
    and nr: "0 < fst (layout pp)" and nc: "0 < snd (layout pp)"
    and rows: "interp_rows interp (total_obs_of pp signals) signals = Inr rows"
    and i: "i < 12"
    and col: "fst (refs ! fst (lead_cell (fst (layout pp)) (rhythm pp) i (lead_order pp ! i)))
            = snd (refs ! fst (lead_cell (fst (layout pp)) (rhythm pp) i (lead_order pp ! i)))"
  shows "postprocess interp pp raw_signals = Inl CalibrationError
       \<and> lead_signal pp rows refs i (lead_order pp ! i) = Inl CalibrationError
       \<and> (\<forall>j ld c sg. lead_signal pp rows refs j ld = Inr (c, sg) \<longrightarrow>
            fst (refs ! fst (lead_cell (fst (layout pp)) (rhythm pp) j ld))
              \<noteq> snd (refs ! fst (lead_cell (fst (layout pp)) (rhythm pp) j ld)))"
proof -
  from segment_lengths [OF seg] n
  have lr: "length refs = fst (layout pp) + length (rhythm pp)"
    and ls: "length signals = length refs" by simp_all
  from interp_rows_Inr [OF rows] ls have lw: "length rows = length refs" by simp
  from ls lr nr have ne: "signals \<noteq> []" by auto
  let ?step = "\<lambda>(i, ld) ecg_data.
                       case lead_signal pp rows refs i ld of
                         Inl e \<Rightarrow> Inl e
                       | Inr (c, signal) \<Rightarrow>
                           Inr (ecg_data(ld := write_column c signal (ecg_data ld)))"
  have ri: "fst (lead_cell (fst (layout pp)) (rhythm pp) i (lead_order pp ! i)) < length refs"
    using lead_row_in_range [OF nr] lr by simp
  from lead_signal_collapsed [OF ri nr col]
  have fail: "lead_signal pp rows refs i (lead_order pp ! i) = Inl CalibrationError" .
  have a: "\<forall>a\<in>set (enumerate 0 (lead_order pp)). \<forall>s. (\<exists>s'. ?step a s = Inr s') \<or> ?step a s = Inl CalibrationError"
  proof (intro ballI allI)
    fix a :: "nat \<times> lead" and s :: table
    obtain j ld where a: "a = (j, ld)" by (cases a)
    from lead_signal_cases [OF nr nc lr lw, of j ld] a
    show "(\<exists>s'. ?step a s = Inr s') \<or> ?step a s = Inl CalibrationError"
      by auto
  qed
  have "(i, lead_order pp ! i) \<in> set (enumerate 0 (lead_order pp))"
    using i lead_order_props by (simp add: in_set_enumerate_eq)
  with fail have b: "\<exists>a\<in>set (enumerate 0 (lead_order pp)). \<forall>s. ?step a s = Inl CalibrationError"
    by (intro bexI [of _ "(i, lead_order pp ! i)"]) simp_all
  from fold_err_fails [OF a b]
  have "vectorize interp pp signals refs = Inl CalibrationError"
    using ne nc rows by (simp add: vectorize_def)
  with seg have p: "postprocess interp pp raw_signals = Inl CalibrationError"
    by (simp add: postprocess_def)
  have g: "fst (refs ! fst (lead_cell (fst (layout pp)) (rhythm pp) j ld))
              \<noteq> snd (refs ! fst (lead_cell (fst (layout pp)) (rhythm pp) j ld))"
    if "lead_signal pp rows refs j ld = Inr (c, sg)" for j ld c sg
    using lead_signal_Inr [OF that] by blast
  from p fail g show ?thesis by blast
qed

subsection \<open>Instances on the small chart\<close>

lemmas ex_defs = ex_pp_def ex_signals_def ex_pulses_def ex_rhythm_signal_def
lemmas vec_defs = vectorize_def total_obs_of_def interp_rows_def interp1d_def lin_interp_def
  lead_signal_def lead_cell_def write_column_def np_round4_def round_half_even_def lead_order_def
  STANDARD_def CABRERA_def CalibrationError_def upt_rec

lemma ex_table_standard:
  "table_columns (vectorize interp1d (ex_pp\<lparr>cabrera := False\<rparr>) ex_signals ex_pulses) =
     Inr [[Some 0, None, None, None], [Some (1 / 5), None, None, None],
          [Some (2 / 5), None, None, None], [None, Some 0, None, None],
          [None, Some (1 / 5), None, None], [None, Some (2 / 5), None, None],
          [None, None, Some 0, None], [None, None, Some (1 / 5), None],
          [None, None, Some (2 / 5), None], [None, None, None, Some 0],
          [None, None, None, Some (1 / 5)], [None, None, None, Some (2 / 5)]]"
  by (simp add: ex_defs vec_defs table_columns_def)

lemma ex_table_cabrera:
  "table_columns (vectorize interp1d (ex_pp\<lparr>cabrera := True\<rparr>) ex_signals ex_pulses) =
     Inr [[Some (1 / 5), None, None, None], [None, Some 0, None, None],
          [None, Some (2 / 5), None, None], [Some (- (2 / 5)), None, None, None],
          [Some 0, None, None, None], [None, Some (1 / 5), None, None],
          [None, None, Some 0, None], [None, None, Some (1 / 5), None],
          [None, None, Some (2 / 5), None], [None, None, None, Some 0],
          [None, None, None, Some (1 / 5)], [None, None, None, Some (2 / 5)]]"
  by (simp add: ex_defs vec_defs table_columns_def)

lemma table_columns_Inr: "table_columns res = Inr cols \<Longrightarrow> \<exists>t. res = Inr t"
  by (cases res) (simp_all add: table_columns_def)

theorem cabrera_remaps_limb_leads_witness:
  "\<exists>tc ts. vectorize interp1d (ex_pp\<lparr>cabrera := True\<rparr>) ex_signals ex_pulses = Inr tc
         \<and> vectorize interp1d (ex_pp\<lparr>cabrera := False\<rparr>) ex_signals ex_pulses = Inr ts
         \<and> tc Lead_aVR = negate_column (ts Lead_III) \<and> tc Lead_I = ts Lead_II
         \<and> tc Lead_V1 = ts Lead_V1"
proof -
  from table_columns_Inr [OF ex_table_cabrera] obtain tc where
    tc: "vectorize interp1d (ex_pp\<lparr>cabrera := True\<rparr>) ex_signals ex_pulses = Inr tc" ..
  from table_columns_Inr [OF ex_table_standard] obtain ts where
    ts: "vectorize interp1d (ex_pp\<lparr>cabrera := False\<rparr>) ex_signals ex_pulses = Inr ts" ..
  note th = cabrera_remaps_limb_leads [OF tc ts]
  from th [THEN conjunct1, rule_format, of 2]
  have a: "tc Lead_aVR = negate_column (ts Lead_III)"
    by (simp add: ex_pp_def CABRERA_def STANDARD_def)
  from th [THEN conjunct1, rule_format, of 1]
  have b: "tc Lead_I = ts Lead_II"
    by (simp add: ex_pp_def CABRERA_def STANDARD_def)
  from th [THEN conjunct2, THEN conjunct2, rule_format, of 6]
  have c: "tc Lead_V1 = ts Lead_V1"
    by (simp add: STANDARD_def)
  from a b c tc ts show ?thesis by blast
qed

theorem cabrera_same_chart_counterexample:
  "table_columns (vectorize interp1d (ex_pp\<lparr>cabrera := True\<rparr>) ex_signals ex_pulses) =
     Inr [[Some (1 / 5), None, None, None], [None, Some 0, None, None],
          [None, Some (2 / 5), None, None], [Some (- (2 / 5)), None, None, None],
          [Some 0, None, None, None], [None, Some (1 / 5), None, None],
          [None, None, Some 0, None], [None, None, Some (1 / 5), None],
          [None, None, Some (2 / 5), None], [None, None, None, Some 0],
          [None, None, None, Some (1 / 5)], [None, None, None, Some (2 / 5)]]
   \<and> table_columns (vectorize interp1d (ex_pp\<lparr>cabrera := False\<rparr>) ex_signals ex_pulses) =
     Inr [[Some 0, None, None, None], [Some (1 / 5), None, None, None],
          [Some (2 / 5), None, None, None], [None, Some 0, None, None],
          [None, Some (1 / 5), None, None], [None, Some (2 / 5), None, None],
          [None, None, Some 0, None], [None, None, Some (1 / 5), None],
          [None, None, Some (2 / 5), None], [None, None, None, Some 0],
          [None, None, None, Some (1 / 5)], [None, None, None, Some (2 / 5)]]"
  using ex_table_cabrera ex_table_standard by simp

lemma non_missing_counts_columns:
  "table_columns res = Inr cols \<Longrightarrow> non_missing_counts res = Inr (map non_missing cols)"
  by (cases res) (auto simp: table_columns_def non_missing_counts_def)

lemma ex_table_interpolated:
  "table_columns (vectorize interp1d (ex_pp\<lparr>interpolation := Some 4\<rparr>) ex_signals ex_pulses) =
     Inr [[Some 0, None, None, None], [Some (1 / 5), None, None, None],
          [Some (2 / 5), None, None, None], [None, Some 0, None, None],
          [None, Some (1 / 5), None, None], [None, Some (2 / 5), None, None],
          [None, None, Some 0, None], [None, None, Some (1 / 5), None],
          [None, None, Some (2 / 5), None], [None, None, None, Some 0],
          [None, None, None, Some (1 / 5)], [None, None, None, Some (2 / 5)]]"
  by (simp add: ex_defs vec_defs table_columns_def)

theorem interpolation_k_counterexample:
  "non_missing_counts (vectorize interp1d (ex_pp\<lparr>interpolation := Some 4\<rparr>) ex_signals ex_pulses)
     = Inr [1, 1, 1, 1, 1, 1, 1, 1, 1, 1, 1, 1]
   \<and> interpolation (ex_pp\<lparr>interpolation := Some 4\<rparr>) = Some 4"
  using non_missing_counts_columns [OF ex_table_interpolated]
  by (simp add: non_missing_def)

lemma ex_rhythm_table:
  "\<exists>t. vectorize interp1d (ex_pp\<lparr>rhythm := [Lead_II], interpolation := Some 4\<rparr>)
          (ex_signals @ [ex_rhythm_signal]) (ex_pulses @ [(10, 0)]) = Inr t"
  by (simp add: ex_defs vec_defs)


theorem interpolation_counts_witness:
  "\<exists>t. vectorize interp1d (ex_pp\<lparr>rhythm := [Lead_II], interpolation := Some 4\<rparr>)
          (ex_signals @ [ex_rhythm_signal]) (ex_pulses @ [(10, 0)]) = Inr t
       \<and> length (t Lead_I) = 4 \<and> non_missing (t Lead_I) = 1
       \<and> length (t Lead_II) = 4 \<and> non_missing (t Lead_II) = 4"
proof -
  from ex_rhythm_table obtain t where
    t: "vectorize interp1d (ex_pp\<lparr>rhythm := [Lead_II], interpolation := Some 4\<rparr>)
          (ex_signals @ [ex_rhythm_signal]) (ex_pulses @ [(10, 0)]) = Inr t" ..
  have k: "interpolation (ex_pp\<lparr>rhythm := [Lead_II], interpolation := Some 4\<rparr>) = Some 4"
    by simp
  from interpolation_counts [OF t k, of 0]
  have a: "length (t Lead_I) = 4 \<and> non_missing (t Lead_I) = 1"
    by (simp add: ex_pp_def lead_order_def STANDARD_def)
  from interpolation_counts [OF t k, of 1]
  have b: "length (t Lead_II) = 4 \<and> non_missing (t Lead_II) = 4"
    by (simp add: ex_pp_def lead_order_def STANDARD_def)
  from t a b show ?thesis by blast
qed


lemmas seg_defs = segment_def py_get_def py_slice_def slice_bound_def PIXEL_EPS_def upt_rec

lemma ex_flat_strip_segment:
  "segment (rp_at_right ex_strip_pp) ex_flat_strip = Inr ([[Point 0 50, Point 1 50]], [(50, 50)])"
  by (simp add: ex_strip_pp_def ex_flat_strip_def seg_defs)

lemma ex_flat_strip_rows:
  "interp_rows interp1d (total_obs_of ex_strip_pp [[Point 0 50, Point 1 50]]) [[Point 0 50, Point 1 50]]
     = Inr [[50, 50, 50, 50, 50, 50, 50, 50, 50, 50, 50, 50]]"
  by (simp add: ex_strip_pp_def total_obs_of_def interp_rows_def interp1d_def lin_interp_def upt_rec)

theorem collapsed_pulse_raises_witness:
  "segment (rp_at_right ex_strip_pp) ex_flat_strip = Inr ([[Point 0 50, Point 1 50]], [(50, 50)])
   \<and> postprocess interp1d ex_strip_pp ex_flat_strip = Inl CalibrationError"
proof -
  have n: "length ex_flat_strip = fst (layout ex_strip_pp) + length (rhythm ex_strip_pp)"
    by (simp add: ex_strip_pp_def ex_flat_strip_def)
  have nr: "0 < fst (layout ex_strip_pp)" and nc: "0 < snd (layout ex_strip_pp)"
    by (simp_all add: ex_strip_pp_def)
  have i: "(0::nat) < 12" by simp
  have col: "fst ([(50, 50)] ! fst (lead_cell (fst (layout ex_strip_pp)) (rhythm ex_strip_pp) 0
                                      (lead_order ex_strip_pp ! 0)))
           = snd ([(50::int, 50::int)] ! fst (lead_cell (fst (layout ex_strip_pp)) (rhythm ex_strip_pp) 0
                                      (lead_order ex_strip_pp ! 0)))"
    by (simp add: ex_strip_pp_def lead_cell_def)
  from collapsed_pulse_raises [OF ex_flat_strip_segment n nr nc ex_flat_strip_rows i col]
    ex_flat_strip_segment
  show ?thesis by blast
qed

text \<open>
  C4. \<open>first_pixels\<close> is the ordinate of the last point of every polyline, also when
  \<open>rp_at_right\<close> is false: on the polyline with ordinates 10, 10, 20, 20 and the pulse at
  the left, the anchor \<open>volt_0\<close> is 20, the ordinate of the last column, and not 10, the
  ordinate of the first column.
\<close>

theorem segment_anchor_is_last_column:
  "segment False [[Point 0 10, Point 1 10, Point 2 20, Point 3 20]]
     = Inr ([[Point 3 20]], [(20, 10)])
   \<and> segment True [[Point 0 50, Point 1 50, Point 2 50, Point 3 60, Point 4 50]]
     = Inr ([[Point 0 50, Point 1 50]], [(50, 50)])"
  by (simp add: seg_defs)

subsection \<open>The cache of links\<close>

lemma fold_err_induct:
  assumes "fold_err f xs s = Inr s'"
    and "P [] s"
    and "\<And>ys a zs t t'. xs = ys @ a # zs \<Longrightarrow> P ys t \<Longrightarrow> f a t = Inr t' \<Longrightarrow> P (ys @ [a]) t'"
  shows "P xs s'"
proof -
  have "fold_err f zs t = Inr s' \<Longrightarrow> P ys t \<Longrightarrow> xs = ys @ zs \<Longrightarrow> P (ys @ zs) s'" for ys zs t
  proof (induction zs arbitrary: ys t)
    case Nil
    then show ?case by simp
  next
    case (Cons a zs)
    from Cons.prems(1) obtain t' where t': "f a t = Inr t'" and rest: "fold_err f zs t' = Inr s'"
      by (auto split: sum.splits)
    from assms(3) [OF Cons.prems(3) Cons.prems(2) t'] have "P (ys @ [a]) t'" .
    from Cons.IH [OF rest this] Cons.prems(3) show ?case by simp
  qed
  from this [of xs s "[]"] assms(1,2) show ?thesis by simp
qed

lemma cache_cell_update:
  "cache_cell (AList.update k v A) k' i =
     (if k' = k then (if length v \<le> i then Inl IndexError
                      else (case v ! i of None \<Rightarrow> Inl TypeError | Some cl \<Rightarrow> Inr cl))
      else cache_cell A k' i)"
  by (simp add: cache_cell_def update_conv')

lemma cache_cell_map_le:
  "map_of A \<subseteq>\<^sub>m map_of B \<Longrightarrow> cache_cell A k i = Inr q \<Longrightarrow> cache_cell B k i = Inr q"
proof -
  assume le: "map_of A \<subseteq>\<^sub>m map_of B" and c: "cache_cell A k i = Inr q"
  from c obtain st where st: "map_of A k = Some st"
    by (auto simp: cache_cell_def split: option.splits)
  with le have "map_of B k = Some st"
    by (metis domI map_le_def)
  with st c show ?thesis by (simp add: cache_cell_def)
qed

lemma cache_cell_init: "i < n \<Longrightarrow> map_of A k = Some (init_stats n pc) \<Longrightarrow>
    cache_cell A k i = Inr (Cell (centre pc) None 1 0)"
  by (simp add: cache_cell_def init_stats_def)

lemma update_fresh: "k \<notin> fst ` set al \<Longrightarrow> AList.update k v al = al @ [(k, v)]"
  by (induction al) auto

text \<open>One step of the loop over the previous clusters.\<close>

lemma cost_step_Inr:
  assumes "cost_step n N rois col c i pc (A, costs) = Inr (B, costs')"
  shows "map_of A \<subseteq>\<^sub>m map_of B
       \<and> (map_of A (col - 1, pc) = None \<longrightarrow> B = AList.update (col - 1, pc) (init_stats n pc) A)
       \<and> (map_of A (col - 1, pc) \<noteq> None \<longrightarrow> B = A)
       \<and> (\<exists>q. cache_cell B (col - 1, pc) i = Inr q)
       \<and> i < length rois
       \<and> costs' = AList.update pc (trans_cost B N rois col c i pc) costs"
proof (cases "map_of A (col - 1, pc) = None")
  case True
  with assms show ?thesis
    by (auto simp: cost_step_def Let_def init_stats_def trans_cost_def the_cell_def map_le_def update_conv'
        split: sum.splits if_splits)
next
  case False
  with assms show ?thesis
    by (auto simp: cost_step_def Let_def init_stats_def trans_cost_def the_cell_def
        split: sum.splits if_splits)
qed

lemma the_cell_map_le:
  "map_of A \<subseteq>\<^sub>m map_of B \<Longrightarrow> cache_cell A k i = Inr q \<Longrightarrow> the_cell B k i = the_cell A k i"
  using cache_cell_map_le [of A B k i q] by (simp add: the_cell_def)

lemma trans_cost_map_le:
  "map_of A \<subseteq>\<^sub>m map_of B \<Longrightarrow> cache_cell A (col - 1, pc) i = Inr q \<Longrightarrow>
   trans_cost B N rois col c i pc = trans_cost A N rois col c i pc"
  by (simp add: trans_cost_def the_cell_map_le)

lemma cost_fold:
  assumes f: "fold_err (cost_step n N rois col c i) pcs (A, []) = Inr (B, costs)"
    and d: "distinct pcs"
  shows "map_of A \<subseteq>\<^sub>m map_of B
       \<and> (\<forall>k. map_of B k \<noteq> None \<longrightarrow> map_of A k \<noteq> None
              \<or> (\<exists>pc\<in>set pcs. k = (col - 1, pc) \<and> map_of B k = Some (init_stats n pc)))
       \<and> (\<forall>pc\<in>set pcs. \<exists>q. cache_cell B (col - 1, pc) i = Inr q)
       \<and> costs = map (\<lambda>pc. (pc, trans_cost B N rois col c i pc)) pcs
       \<and> (pcs \<noteq> [] \<longrightarrow> i < length rois)"
proof -
  define P where "P ys t \<longleftrightarrow> map_of A \<subseteq>\<^sub>m map_of (fst t)
       \<and> (\<forall>k. map_of (fst t) k \<noteq> None \<longrightarrow> map_of A k \<noteq> None
              \<or> (\<exists>pc\<in>set ys. k = (col - 1, pc) \<and> map_of (fst t) k = Some (init_stats n pc)))
       \<and> (\<forall>pc\<in>set ys. \<exists>q. cache_cell (fst t) (col - 1, pc) i = Inr q)
       \<and> snd t = map (\<lambda>pc. (pc, trans_cost (fst t) N rois col c i pc)) ys
       \<and> (ys \<noteq> [] \<longrightarrow> i < length rois)"
    for ys :: "cluster list" and t :: "cache \<times> (cluster \<times> rat) list"
  have "P pcs (B, costs)"
  proof (rule fold_err_induct [OF f])
    show "P [] (A, [])" by (simp add: P_def)
  next
    fix ys a zs t t'
    assume xs: "pcs = ys @ a # zs" and Pt: "P ys t"
      and step: "cost_step n N rois col c i a t = Inr t'"
    obtain S cs where t: "t = (S, cs)" by (cases t)
    obtain S' cs' where t': "t' = (S', cs')" by (cases t')
    from xs d have fresh: "a \<notin> set ys" by auto
    note st = cost_step_Inr [OF step [unfolded t t']]
    from st have le: "map_of S \<subseteq>\<^sub>m map_of S'" by blast
    from Pt t have AS: "map_of A \<subseteq>\<^sub>m map_of S"
      and dom: "\<forall>k. map_of S k \<noteq> None \<longrightarrow> map_of A k \<noteq> None
              \<or> (\<exists>pc\<in>set ys. k = (col - 1, pc) \<and> map_of S k = Some (init_stats n pc))"
      and cells: "\<forall>pc\<in>set ys. \<exists>q. cache_cell S (col - 1, pc) i = Inr q"
      and cs: "cs = map (\<lambda>pc. (pc, trans_cost S N rois col c i pc)) ys"
      by (simp_all add: P_def)
    have 1: "map_of A \<subseteq>\<^sub>m map_of S'"
      using AS le by (rule map_le_trans)
    have 2: "map_of A k \<noteq> None
              \<or> (\<exists>pc\<in>set (ys @ [a]). k = (col - 1, pc) \<and> map_of S' k = Some (init_stats n pc))"
      if k: "map_of S' k \<noteq> None" for k
    proof (cases "map_of S k = None")
      case True
      with k st have "S' = AList.update (col - 1, a) (init_stats n a) S"
        by (cases "map_of S (col - 1, a) = None") auto
      with True k have "k = (col - 1, a) \<and> map_of S' k = Some (init_stats n a)"
        by (auto simp: update_conv' split: if_splits)
      then show ?thesis by auto
    next
      case False
      with dom have "map_of A k \<noteq> None
              \<or> (\<exists>pc\<in>set ys. k = (col - 1, pc) \<and> map_of S k = Some (init_stats n pc))"
        by blast
      moreover from False le have "map_of S' k = map_of S k"
        by (metis domIff map_le_def)
      ultimately show ?thesis by auto
    qed
    have 3: "\<exists>q. cache_cell S' (col - 1, pc) i = Inr q" if "pc \<in> set (ys @ [a])" for pc
    proof (cases "pc = a")
      case True
      with st show ?thesis by blast
    next
      case False
      with that cells obtain q where "cache_cell S (col - 1, pc) i = Inr q" by auto
      from cache_cell_map_le [OF le this] show ?thesis by blast
    qed
    have old: "trans_cost S' N rois col c i pc = trans_cost S N rois col c i pc" if "pc \<in> set ys" for pc
    proof -
      from that cells obtain q where "cache_cell S (col - 1, pc) i = Inr q" by auto
      from trans_cost_map_le [OF le this] show ?thesis .
    qed
    from cs fresh have "a \<notin> fst ` set cs" by (auto simp: image_iff)
    with st have "cs' = cs @ [(a, trans_cost S' N rois col c i a)]"
      by (simp add: update_fresh)
    with cs old have 4: "cs' = map (\<lambda>pc. (pc, trans_cost S' N rois col c i pc)) (ys @ [a])"
      by simp
    from st have 5: "i < length rois" by blast
    from 1 2 3 4 5 show "P (ys @ [a]) t'"
      unfolding P_def t' by simp
  qed
  then show ?thesis by (simp add: P_def)
qed

lemma py_min_key_cong:
  "(\<And>a. a \<in> set xs \<Longrightarrow> f a = g a) \<Longrightarrow> py_min_key f xs = py_min_key g xs"
proof (cases xs)
  case Nil
  then show ?thesis by simp
next
  case (Cons a as)
  assume eq: "\<And>a. a \<in> set xs \<Longrightarrow> f a = g a"
  have "b \<in> set xs \<Longrightarrow> set bs \<subseteq> set xs \<Longrightarrow>
        foldl (\<lambda>b c. if f c < f b then c else b) b bs = foldl (\<lambda>b c. if g c < g b then c else b) b bs"
    for b bs
    by (induction bs arbitrary: b) (auto simp: eq)
  from this [of a as] Cons show ?thesis by auto
qed

lemma py_min_key_pairs:
  "py_min_key snd (map (\<lambda>a. (a, f a)) xs) = map_option (\<lambda>b. (b, f b)) (py_min_key f xs)"
proof (cases xs)
  case Nil
  then show ?thesis by simp
next
  case (Cons a as)
  have "foldl (\<lambda>b c. if snd c < snd b then c else b) (b, f b) (map (\<lambda>a. (a, f a)) bs)
        = (\<lambda>b. (b, f b)) (foldl (\<lambda>b c. if f c < f b then c else b) b bs)" for b bs
    by (induction bs arbitrary: b) auto
  with Cons show ?thesis by simp
qed

lemma py_min_key_Some:
  assumes "py_min_key f xs = Some b"
  shows "b \<in> set xs \<and> (\<forall>a\<in>set xs. f b \<le> f a)"
proof (cases xs)
  case Nil
  with assms show ?thesis by simp
next
  case (Cons a as)
  have "foldl (\<lambda>b c. if f c < f b then c else b) b bs \<in> set (b # bs)
      \<and> (\<forall>a\<in>set (b # bs). f (foldl (\<lambda>b c. if f c < f b then c else b) b bs) \<le> f a)" for b bs
  proof (induction bs arbitrary: b)
    case Nil
    then show ?case by simp
  next
    case (Cons c bs)
    from Cons [of "if f c < f b then c else b"] show ?case
      by (auto split: if_splits)
  qed
  from this [of a as] Cons assms show ?thesis by auto
qed

lemma py_min_key_None: "py_min_key f xs = None \<longleftrightarrow> xs = []"
  by (cases xs) simp_all

lemma best_link_cells:
  assumes "best_link S N rois pcs col c i q" and "pc \<in> set pcs"
  shows "\<exists>p. cache_cell S (col - 1, pc) i = Inr p"
proof -
  from assms have "case cache_cell S (col - 1, pc) i of Inr p \<Rightarrow> True | Inl e \<Rightarrow> False"
    by (simp add: best_link_def list_all_iff)
  then show ?thesis by (cases "cache_cell S (col - 1, pc) i") simp_all
qed

lemma best_link_mono:
  assumes "best_link S N rois pcs col c i q"
    and "\<And>pc p. pc \<in> set pcs \<Longrightarrow> cache_cell S (col - 1, pc) i = Inr p
           \<Longrightarrow> cache_cell S' (col - 1, pc) i = Inr p"
  shows "best_link S' N rois pcs col c i q"
proof -
  from best_link_cells [OF assms(1)]
  have all: "\<forall>pc\<in>set pcs. \<exists>p. cache_cell S (col - 1, pc) i = Inr p"
    by blast
  have same: "the_cell S' (col - 1, pc) i = the_cell S (col - 1, pc) i" if "pc \<in> set pcs" for pc
    using all assms(2) that by (fastforce simp: the_cell_def)
  then have tc: "trans_cost S' N rois col c i pc = trans_cost S N rois col c i pc"
    if "pc \<in> set pcs" for pc
    using that by (simp add: trans_cost_def)
  from py_min_key_cong [of pcs "trans_cost S' N rois col c i" "trans_cost S N rois col c i"] tc
  have m: "py_min_key (trans_cost S' N rois col c i) pcs = py_min_key (trans_cost S N rois col c i) pcs"
    by blast
  from all assms(2) have all': "\<forall>pc\<in>set pcs. \<exists>p. cache_cell S' (col - 1, pc) i = Inr p"
    by blast
  from assms(1) obtain best where b: "py_min_key (trans_cost S N rois col c i) pcs = Some best"
    and q: "q = Cell (centre best) (Some (col - 1, best))
                  (cell_len (the_cell S (col - 1, best) i) + 1)
                  (trans_cost S N rois col c i best)"
    by (auto simp: best_link_def split: option.splits)
  from py_min_key_Some [OF b] have "best \<in> set pcs" by blast
  with same tc m b q all' show ?thesis
    by (auto simp: best_link_def list_all_iff)
qed

lemma roi_step_Inr:
  assumes r: "roi_step n N rois col pcs c i A = Inr B'"
    and d: "distinct pcs" and col: "1 \<le> col"
  shows "(\<forall>k v. k \<noteq> (col, c) \<longrightarrow> map_of A k = Some v \<longrightarrow> map_of B' k = Some v)
       \<and> (\<forall>k. map_of B' k \<noteq> None \<longrightarrow> map_of A k \<noteq> None
              \<or> (\<exists>pc\<in>set pcs. k = (col - 1, pc) \<and> map_of B' k = Some (init_stats n pc)))
       \<and> (\<exists>stats q. map_of A (col, c) = Some stats \<and> i < length stats
              \<and> map_of B' (col, c) = Some (stats[i := Some q])
              \<and> best_link B' N rois pcs col c i q)
       \<and> i < length rois"
proof -
  from r obtain B costs where f: "fold_err (cost_step n N rois col c i) pcs (A, []) = Inr (B, costs)"
    by (auto simp: roi_step_def split: sum.splits)
  note cf = cost_fold [OF f d]
  from cf have le: "map_of A \<subseteq>\<^sub>m map_of B"
    and costs: "costs = map (\<lambda>pc. (pc, trans_cost B N rois col c i pc)) pcs"
    and cells: "\<forall>pc\<in>set pcs. \<exists>q. cache_cell B (col - 1, pc) i = Inr q"
    by blast+
  from r f obtain best_s where bs: "py_min_key snd costs = Some best_s"
    by (auto simp: roi_step_def split: option.splits)
  with costs obtain best where best: "py_min_key (trans_cost B N rois col c i) pcs = Some best"
    and best_s: "best_s = (best, trans_cost B N rois col c i best)"
    by (auto simp: py_min_key_pairs)
  from py_min_key_Some [OF best] have bin: "best \<in> set pcs" by blast
  with cells obtain bcell where bcell: "cache_cell B (col - 1, best) i = Inr bcell" by blast
  from bin cf have il: "i < length rois" by auto
  define q where "q = Cell (centre best) (Some (col - 1, best)) (cell_len bcell + 1)
                        (trans_cost B N rois col c i best)"
  from r f bs best_s bcell obtain stats where st: "map_of B (col, c) = Some stats"
    and len: "i < length stats"
    and B': "B' = AList.update (col, c) (stats[i := Some q]) B"
    by (auto simp: roi_step_def Let_def q_def split: option.splits if_splits)
  have mB': "map_of B' = (map_of B)((col, c) \<mapsto> stats[i := Some q])"
    by (simp add: B' update_conv')
  have 1: "map_of B' k = Some v" if "k \<noteq> (col, c)" "map_of A k = Some v" for k v
  proof -
    from le that(2) have "map_of B k = Some v" by (metis domI map_le_def)
    with that(1) show ?thesis by (simp add: mB')
  qed
  have stA: "map_of A (col, c) = Some stats"
  proof -
    from cf st have "map_of A (col, c) \<noteq> None
              \<or> (\<exists>pc\<in>set pcs. (col, c) = (col - 1, pc) \<and> map_of B (col, c) = Some (init_stats n pc))"
      by blast
    with col have "map_of A (col, c) \<noteq> None" by auto
    with le st show ?thesis by (metis domIff map_le_def)
  qed
  have 2: "map_of A k \<noteq> None
              \<or> (\<exists>pc\<in>set pcs. k = (col - 1, pc) \<and> map_of B' k = Some (init_stats n pc))"
    if "map_of B' k \<noteq> None" for k
  proof (cases "k = (col, c)")
    case True
    with stA show ?thesis by simp
  next
    case False
    with that have "map_of B k \<noteq> None" and e: "map_of B' k = map_of B k" by (simp_all add: mB')
    with cf have "map_of A k \<noteq> None
              \<or> (\<exists>pc\<in>set pcs. k = (col - 1, pc) \<and> map_of B k = Some (init_stats n pc))"
      by blast
    with e show ?thesis by auto
  qed
  from col have ne: "(col - 1, pc) \<noteq> (col, c)" for pc by auto
  have same: "cache_cell B' (col - 1, pc) i = cache_cell B (col - 1, pc) i" for pc
    unfolding B' cache_cell_update using ne [of pc] by (simp only: if_False)
  have "best_link B N rois pcs col c i q"
    using cells best bcell by (auto simp: best_link_def list_all_iff q_def the_cell_def)
  then have 3: "best_link B' N rois pcs col c i q"
    by (rule best_link_mono) (simp only: same)
  from 1 2 3 stA len mB' il show ?thesis by auto
qed

lemma cache_cell_kept:
  assumes "\<forall>k v. k \<noteq> kc \<longrightarrow> map_of S k = Some v \<longrightarrow> map_of S' k = Some v"
    and "k \<noteq> kc" and "cache_cell S k i = Inr p"
  shows "cache_cell S' k i = Inr p"
proof -
  from assms(3) obtain st where st: "map_of S k = Some st"
    by (auto simp: cache_cell_def split: option.splits)
  with assms(1,2) have "map_of S' k = Some st" by blast
  with st assms(3) show ?thesis by (simp add: cache_cell_def)
qed

lemma best_link_kept:
  assumes "best_link S N rois pcs col c i q"
    and "\<forall>k v. k \<noteq> (col, c') \<longrightarrow> map_of S k = Some v \<longrightarrow> map_of S' k = Some v"
    and "1 \<le> col"
  shows "best_link S' N rois pcs col c i q"
proof (rule best_link_mono [OF assms(1)])
  fix pc p assume "cache_cell S (col - 1, pc) i = Inr p"
  moreover from assms(3) have "(col - 1, pc) \<noteq> (col, c')" by auto
  ultimately show "cache_cell S' (col - 1, pc) i = Inr p"
    using cache_cell_kept [OF assms(2)] by blast
qed

lemma cluster_step_Inr:
  assumes cs: "cluster_step n N rois col pcs c A0 = Inr S"
    and d: "distinct pcs" and col: "1 \<le> col"
  shows "(\<forall>k v. k \<noteq> (col, c) \<longrightarrow> map_of A0 k = Some v \<longrightarrow> map_of S k = Some v)
       \<and> (\<forall>k. map_of S k \<noteq> None \<longrightarrow> k = (col, c) \<or> map_of A0 k \<noteq> None
              \<or> (\<exists>pc\<in>set pcs. k = (col - 1, pc) \<and> map_of S k = Some (init_stats n pc) \<and> 0 < n))
       \<and> (\<exists>stats. map_of S (col, c) = Some stats \<and> length stats = n
              \<and> (\<forall>i<n. \<exists>q. stats ! i = Some q \<and> best_link S N rois pcs col c i q))
       \<and> (0 < n \<longrightarrow> n \<le> length rois)"
proof -
  define Q where "Q ys T \<longleftrightarrow>
       (\<forall>k v. k \<noteq> (col, c) \<longrightarrow> map_of A0 k = Some v \<longrightarrow> map_of T k = Some v)
       \<and> (\<forall>k. map_of T k \<noteq> None \<longrightarrow> k = (col, c) \<or> map_of A0 k \<noteq> None
              \<or> (\<exists>pc\<in>set pcs. k = (col - 1, pc) \<and> map_of T k = Some (init_stats n pc) \<and> ys \<noteq> []))
       \<and> (\<exists>stats. map_of T (col, c) = Some stats \<and> length stats = n
              \<and> (\<forall>i\<in>set ys. \<exists>q. stats ! i = Some q \<and> best_link T N rois pcs col c i q))
       \<and> (\<forall>i\<in>set ys. i < length rois)"
    for ys :: "nat list" and T :: cache
  from cs have f: "fold_err (roi_step n N rois col pcs c) [0..<n]
                     (AList.update (col, c) (replicate n None) A0) = Inr S"
    by (simp add: cluster_step_def)
  have "Q [0..<n] S"
  proof (rule fold_err_induct [OF f])
    show "Q [] (AList.update (col, c) (replicate n None) A0)"
      by (auto simp: Q_def update_conv')
  next
    fix ys i zs T T'
    assume xs: "[0..<n] = ys @ i # zs" and QT: "Q ys T"
      and step: "roi_step n N rois col pcs c i T = Inr T'"
    have "distinct [0..<n]" by simp
    with xs have fresh: "i \<notin> set ys" by (simp only: distinct_append) auto
    have "i \<in> set [0..<n]" by (simp only: xs) simp
    then have i: "i < n" by simp
    note r = roi_step_Inr [OF step d col]
    from r have r1: "\<forall>k v. k \<noteq> (col, c) \<longrightarrow> map_of T k = Some v \<longrightarrow> map_of T' k = Some v"
      by blast
    from r have r2: "\<forall>k. map_of T' k \<noteq> None \<longrightarrow> map_of T k \<noteq> None
              \<or> (\<exists>pc\<in>set pcs. k = (col - 1, pc) \<and> map_of T' k = Some (init_stats n pc))"
      by blast
    from r obtain stats q where st: "map_of T (col, c) = Some stats"
      and st': "map_of T' (col, c) = Some (stats[i := Some q])"
      and bl: "best_link T' N rois pcs col c i q" and il: "i < length rois"
      by blast
    from QT have q1: "\<forall>k v. k \<noteq> (col, c) \<longrightarrow> map_of A0 k = Some v \<longrightarrow> map_of T k = Some v"
      and q2: "\<forall>k. map_of T k \<noteq> None \<longrightarrow> k = (col, c) \<or> map_of A0 k \<noteq> None
              \<or> (\<exists>pc\<in>set pcs. k = (col - 1, pc) \<and> map_of T k = Some (init_stats n pc) \<and> ys \<noteq> [])"
      and q4: "\<forall>i\<in>set ys. i < length rois"
      by (simp_all add: Q_def)
    from QT st have len: "length stats = n"
      and q3: "\<forall>j\<in>set ys. \<exists>p. stats ! j = Some p \<and> best_link T N rois pcs col c j p"
      by (auto simp: Q_def)
    have 1: "\<forall>k v. k \<noteq> (col, c) \<longrightarrow> map_of A0 k = Some v \<longrightarrow> map_of T' k = Some v"
      using q1 r1 by blast
    have 2: "k = (col, c) \<or> map_of A0 k \<noteq> None
              \<or> (\<exists>pc\<in>set pcs. k = (col - 1, pc) \<and> map_of T' k = Some (init_stats n pc) \<and> ys @ [i] \<noteq> [])"
      if k: "map_of T' k \<noteq> None" and kc: "k \<noteq> (col, c)" and ka: "map_of A0 k = None" for k
    proof (cases "map_of T k = None")
      case True
      from r2 k have "map_of T k \<noteq> None
              \<or> (\<exists>pc\<in>set pcs. k = (col - 1, pc) \<and> map_of T' k = Some (init_stats n pc))"
        by blast
      with True have "\<exists>pc\<in>set pcs. k = (col - 1, pc) \<and> map_of T' k = Some (init_stats n pc)"
        by blast
      then show ?thesis by blast
    next
      case False
      with q2 kc ka obtain pc where pc: "pc \<in> set pcs" "k = (col - 1, pc)"
        "map_of T k = Some (init_stats n pc)" by blast
      with r1 kc have "map_of T' k = Some (init_stats n pc)" by blast
      with pc show ?thesis by auto
    qed
    have 3: "\<exists>p. stats[i := Some q] ! j = Some p \<and> best_link T' N rois pcs col c j p"
      if j: "j \<in> set (ys @ [i])" for j
    proof (cases "j = i")
      case True
      with bl i len show ?thesis by simp
    next
      case False
      with j q3 obtain p where p: "stats ! j = Some p" "best_link T N rois pcs col c j p" by auto
      from best_link_kept [OF p(2) r1 col] p(1) False show ?thesis by simp
    qed
    from 2 have two: "\<forall>k. map_of T' k \<noteq> None \<longrightarrow> k = (col, c) \<or> map_of A0 k \<noteq> None
              \<or> (\<exists>pc\<in>set pcs. k = (col - 1, pc) \<and> map_of T' k = Some (init_stats n pc) \<and> ys @ [i] \<noteq> [])"
      by blast
    from 3 st' len have three: "\<exists>stats. map_of T' (col, c) = Some stats \<and> length stats = n
              \<and> (\<forall>j\<in>set (ys @ [i]). \<exists>q. stats ! j = Some q \<and> best_link T' N rois pcs col c j q)"
      by (intro exI [of _ "stats[i := Some q]"]) simp
    from q4 il have four: "\<forall>j\<in>set (ys @ [i]). j < length rois" by simp
    from 1 two three four show "Q (ys @ [i]) T'"
      unfolding Q_def by blast
  qed
  then show ?thesis
    unfolding Q_def by (auto simp: not_less)
qed

lemma groupby_key_concat: "concat (groupby_key f xs) = xs"
  by (induction xs) (auto split: list.splits)

lemma groupby_key_nonempty: "[] \<notin> set (groupby_key f xs)"
  by (induction xs) (auto split: list.splits)

lemma distinct_groups:
  assumes "distinct (concat gs)" and "[] \<notin> set gs"
  shows "distinct gs"
  using assms
proof (induction gs)
  case Nil
  then show ?case by simp
next
  case (Cons g gs)
  from Cons.prems have dg: "distinct (concat gs)" and ne: "[] \<notin> set gs"
    and disj: "set g \<inter> set (concat gs) = {}" and g: "g \<noteq> []"
    by auto
  have "g \<notin> set gs"
  proof
    assume "g \<in> set gs"
    then have "set g \<subseteq> set (concat gs)" by auto
    with disj g show False by (cases g) auto
  qed
  with Cons.IH [OF dg ne] show ?case by simp
qed

lemma get_clusters_concat:
  "concat (get_clusters ecg col) = map int (filter (\<lambda>r. ecg ! r ! col = BLACK) [0..<height ecg])"
proof -
  have "concat (map (map snd) gs) = map snd (concat gs)" for gs :: "(nat \<times> int) list list"
    by (induction gs) simp_all
  then show ?thesis
    by (simp add: get_clusters_def groupby_key_concat)
qed

lemma get_clusters_nonempty: "[] \<notin> set (get_clusters ecg col)"
  using groupby_key_nonempty by (fastforce simp: get_clusters_def)

lemma distinct_get_clusters: "distinct (get_clusters ecg col)"
proof (rule distinct_groups)
  show "distinct (concat (get_clusters ecg col))"
    by (simp add: get_clusters_concat distinct_map inj_on_def)
  show "[] \<notin> set (get_clusters ecg col)"
    by (rule get_clusters_nonempty)
qed

lemma cache_cell_preserved:
  assumes "\<forall>k v. map_of A k = Some v \<longrightarrow> map_of S k = Some v" and "cache_cell A k i = Inr p"
  shows "cache_cell S k i = Inr p"
proof -
  from assms(2) obtain st where st: "map_of A k = Some st"
    by (auto simp: cache_cell_def split: option.splits)
  with assms(1) have "map_of S k = Some st" by blast
  with st assms(2) show ?thesis by (simp add: cache_cell_def)
qed

text \<open>The loop over the clusters of a column.\<close>

lemma column_fold:
  assumes f: "fold_err (cluster_step n N rois col pcs) cs A = Inr S"
    and d: "distinct pcs" and dc: "distinct cs" and col: "1 \<le> col"
    and old: "\<forall>x cl. map_of A (x, cl) \<noteq> None \<longrightarrow> x < col"
  shows "(\<forall>k v. map_of A k = Some v \<longrightarrow> map_of S k = Some v)
       \<and> (\<forall>k. map_of S k \<noteq> None \<longrightarrow> map_of A k \<noteq> None \<or> (\<exists>c\<in>set cs. k = (col, c))
              \<or> (\<exists>pc\<in>set pcs. k = (col - 1, pc) \<and> map_of S k = Some (init_stats n pc)
                    \<and> 0 < n \<and> cs \<noteq> []))
       \<and> (\<forall>c\<in>set cs. \<exists>stats. map_of S (col, c) = Some stats \<and> length stats = n
              \<and> (\<forall>i<n. \<exists>q. stats ! i = Some q \<and> best_link S N rois pcs col c i q))
       \<and> (cs \<noteq> [] \<and> 0 < n \<longrightarrow> n \<le> length rois)"
proof -
  define R where "R ys T \<longleftrightarrow>
       (\<forall>k v. map_of A k = Some v \<longrightarrow> map_of T k = Some v)
       \<and> (\<forall>k. map_of T k \<noteq> None \<longrightarrow> map_of A k \<noteq> None \<or> (\<exists>c\<in>set ys. k = (col, c))
              \<or> (\<exists>pc\<in>set pcs. k = (col - 1, pc) \<and> map_of T k = Some (init_stats n pc)
                    \<and> 0 < n \<and> ys \<noteq> []))
       \<and> (\<forall>c\<in>set ys. \<exists>stats. map_of T (col, c) = Some stats \<and> length stats = n
              \<and> (\<forall>i<n. \<exists>q. stats ! i = Some q \<and> best_link T N rois pcs col c i q))
       \<and> (ys \<noteq> [] \<and> 0 < n \<longrightarrow> n \<le> length rois)"
    for ys :: "cluster list" and T :: cache
  have "R cs S"
  proof (rule fold_err_induct [OF f])
    show "R [] A" by (simp add: R_def)
  next
    fix ys c zs T T'
    assume xs: "cs = ys @ c # zs" and RT: "R ys T"
      and step: "cluster_step n N rois col pcs c T = Inr T'"
    from xs dc have fresh: "c \<notin> set ys" by auto
    note cl = cluster_step_Inr [OF step d col]
    from cl have c1: "\<forall>k v. k \<noteq> (col, c) \<longrightarrow> map_of T k = Some v \<longrightarrow> map_of T' k = Some v"
      by blast
    from cl have c2: "\<forall>k. map_of T' k \<noteq> None \<longrightarrow> k = (col, c) \<or> map_of T k \<noteq> None
              \<or> (\<exists>pc\<in>set pcs. k = (col - 1, pc) \<and> map_of T' k = Some (init_stats n pc) \<and> 0 < n)"
      by blast
    from cl have c3: "\<exists>stats. map_of T' (col, c) = Some stats \<and> length stats = n
              \<and> (\<forall>i<n. \<exists>q. stats ! i = Some q \<and> best_link T' N rois pcs col c i q)"
      by blast
    from cl have c4: "0 < n \<longrightarrow> n \<le> length rois" by blast
    from RT have r1: "\<forall>k v. map_of A k = Some v \<longrightarrow> map_of T k = Some v"
      and r2: "\<forall>k. map_of T k \<noteq> None \<longrightarrow> map_of A k \<noteq> None \<or> (\<exists>c\<in>set ys. k = (col, c))
              \<or> (\<exists>pc\<in>set pcs. k = (col - 1, pc) \<and> map_of T k = Some (init_stats n pc)
                    \<and> 0 < n \<and> ys \<noteq> [])"
      and r3: "\<forall>c\<in>set ys. \<exists>stats. map_of T (col, c) = Some stats \<and> length stats = n
              \<and> (\<forall>i<n. \<exists>q. stats ! i = Some q \<and> best_link T N rois pcs col c i q)"
      by (simp_all add: R_def)
    have a1: "\<forall>k v. map_of A k = Some v \<longrightarrow> map_of T' k = Some v"
    proof (intro allI impI)
      fix k v assume kv: "map_of A k = Some v"
      obtain x cl where k: "k = (x, cl)" by (cases k)
      with kv old have "x < col" by auto
      with k have "k \<noteq> (col, c)" by auto
      with r1 kv c1 show "map_of T' k = Some v" by blast
    qed
    have a2: "\<forall>k. map_of T' k \<noteq> None \<longrightarrow> map_of A k \<noteq> None \<or> (\<exists>c\<in>set (ys @ [c]). k = (col, c))
              \<or> (\<exists>pc\<in>set pcs. k = (col - 1, pc) \<and> map_of T' k = Some (init_stats n pc)
                    \<and> 0 < n \<and> ys @ [c] \<noteq> [])"
    proof (intro allI impI)
      fix k assume k: "map_of T' k \<noteq> None"
      show "map_of A k \<noteq> None \<or> (\<exists>c\<in>set (ys @ [c]). k = (col, c))
              \<or> (\<exists>pc\<in>set pcs. k = (col - 1, pc) \<and> map_of T' k = Some (init_stats n pc)
                    \<and> 0 < n \<and> ys @ [c] \<noteq> [])"
      proof (cases "k = (col, c)")
        case True
        then show ?thesis by simp
      next
        case kc: False
        show ?thesis
        proof (cases "map_of T k = None")
          case True
          with c2 k kc have "\<exists>pc\<in>set pcs. k = (col - 1, pc) \<and> map_of T' k = Some (init_stats n pc) \<and> 0 < n"
            by blast
          then show ?thesis by blast
        next
          case False
          with r2 have "map_of A k \<noteq> None \<or> (\<exists>c\<in>set ys. k = (col, c))
              \<or> (\<exists>pc\<in>set pcs. k = (col - 1, pc) \<and> map_of T k = Some (init_stats n pc)
                    \<and> 0 < n \<and> ys \<noteq> [])" by blast
          moreover have "map_of T' k = Some (init_stats n pc)" if "map_of T k = Some (init_stats n pc)" for pc
            using c1 kc that by blast
          ultimately show ?thesis by auto
        qed
      qed
    qed
    have a3: "\<forall>c'\<in>set (ys @ [c]). \<exists>stats. map_of T' (col, c') = Some stats \<and> length stats = n
              \<and> (\<forall>i<n. \<exists>q. stats ! i = Some q \<and> best_link T' N rois pcs col c' i q)"
    proof
      fix c' assume c': "c' \<in> set (ys @ [c])"
      show "\<exists>stats. map_of T' (col, c') = Some stats \<and> length stats = n
              \<and> (\<forall>i<n. \<exists>q. stats ! i = Some q \<and> best_link T' N rois pcs col c' i q)"
      proof (cases "c' = c")
        case True
        with c3 show ?thesis by simp
      next
        case False
        with c' have "c' \<in> set ys" by simp
        with r3 obtain stats where st: "map_of T (col, c') = Some stats" "length stats = n"
          and bl: "\<forall>i<n. \<exists>q. stats ! i = Some q \<and> best_link T N rois pcs col c' i q"
          by blast
        from False st c1 have "map_of T' (col, c') = Some stats" by blast
        moreover have "\<forall>i<n. \<exists>q. stats ! i = Some q \<and> best_link T' N rois pcs col c' i q"
          using bl best_link_kept [OF _ c1 col] by blast
        ultimately show ?thesis using st by blast
      qed
    qed
    from c4 have a4: "ys @ [c] \<noteq> [] \<and> 0 < n \<longrightarrow> n \<le> length rois" by simp
    from a1 a2 a3 a4 show "R (ys @ [c]) T'"
      unfolding R_def by blast
  qed
  then show ?thesis
    unfolding R_def by blast
qed

lemma dp_invI:
  assumes "\<And>x cl stats. map_of cache (x, cl) = Some stats \<Longrightarrow>
        x < k \<and> cl \<in> set (K x) \<and> length stats = n"
    and "\<And>x cl stats. map_of cache (x, cl) = Some stats \<Longrightarrow> linked K x \<Longrightarrow>
          (\<forall>i<n. \<exists>q. stats ! i = Some q \<and> best_link cache N rois (K (x - 1)) x cl i q)"
    and "\<And>x cl stats. map_of cache (x, cl) = Some stats \<Longrightarrow> \<not> linked K x \<Longrightarrow>
          stats = init_stats n cl \<and> x + 1 < k \<and> K (x + 1) \<noteq> [] \<and> 0 < n"
    and "\<And>x cl. linked K x \<Longrightarrow> x < k \<Longrightarrow> cl \<in> set (K x) \<Longrightarrow> map_of cache (x, cl) \<noteq> None"
    and "cache \<noteq> [] \<and> 0 < n \<longrightarrow> n \<le> length rois"
  shows "dp_inv n N rois K k cache"
  unfolding dp_inv_def using assms by blast

lemma dp_invD:
  assumes "dp_inv n N rois K k cache"
  shows "\<And>x cl stats. map_of cache (x, cl) = Some stats \<Longrightarrow>
        x < k \<and> cl \<in> set (K x) \<and> length stats = n"
    and "\<And>x cl stats. map_of cache (x, cl) = Some stats \<Longrightarrow> linked K x \<Longrightarrow>
          (\<forall>i<n. \<exists>q. stats ! i = Some q \<and> best_link cache N rois (K (x - 1)) x cl i q)"
    and "\<And>x cl stats. map_of cache (x, cl) = Some stats \<Longrightarrow> \<not> linked K x \<Longrightarrow>
          stats = init_stats n cl \<and> x + 1 < k \<and> K (x + 1) \<noteq> [] \<and> 0 < n"
    and "\<And>x cl. linked K x \<Longrightarrow> x < k \<Longrightarrow> cl \<in> set (K x) \<Longrightarrow> map_of cache (x, cl) \<noteq> None"
    and "cache \<noteq> [] \<and> 0 < n \<longrightarrow> n \<le> length rois"
  using assms unfolding dp_inv_def by blast+

lemma best_link_preserved:
  assumes "best_link A N rois pcs col c i q"
    and "\<forall>k v. map_of A k = Some v \<longrightarrow> map_of S k = Some v"
  shows "best_link S N rois pcs col c i q"
  by (rule best_link_mono [OF assms(1)]) (rule cache_cell_preserved [OF assms(2)])

lemma column_step_inv:
  assumes step: "column_step n rois ecg k A = Inr S"
    and inv: "dp_inv n (width ecg) rois (get_clusters ecg) k A"
    and k: "1 \<le> k"
  shows "dp_inv n (width ecg) rois (get_clusters ecg) (Suc k) S"
proof -
  define K where "K = get_clusters ecg"
  define N where "N = width ecg"
  note i = dp_invD [OF inv [folded K_def N_def]]
  show ?thesis
  proof (cases "K (k - 1) = []")
    case True
    with step have S: "S = A" by (simp add: column_step_def K_def)
    from True have nl: "\<not> linked K k" by (simp add: linked_def)
    show ?thesis
      unfolding S K_def [symmetric] N_def [symmetric]
    proof (rule dp_invI)
      fix x cl stats assume "map_of A (x, cl) = Some stats"
      from i(1) [OF this] show "x < Suc k \<and> cl \<in> set (K x) \<and> length stats = n" by simp
    next
      fix x cl stats assume "map_of A (x, cl) = Some stats" "linked K x"
      from i(2) [OF this]
      show "\<forall>i<n. \<exists>q. stats ! i = Some q \<and> best_link A N rois (K (x - 1)) x cl i q" .
    next
      fix x cl stats assume "map_of A (x, cl) = Some stats" "\<not> linked K x"
      from i(3) [OF this]
      show "stats = init_stats n cl \<and> x + 1 < Suc k \<and> K (x + 1) \<noteq> [] \<and> 0 < n" by simp
    next
      fix x cl assume l: "linked K x" and "x < Suc k" and c: "cl \<in> set (K x)"
      with nl have "x < k" by (cases "x = k") auto
      from i(4) [OF l this c] show "map_of A (x, cl) \<noteq> None" .
    next
      from i(5) show "A \<noteq> [] \<and> 0 < n \<longrightarrow> n \<le> length rois" .
    qed
  next
    case False
    with k have lk: "linked K k" by (simp add: linked_def)
    from step False have f: "fold_err (cluster_step n N rois k (K (k - 1))) (K k) A = Inr S"
      by (simp add: column_step_def K_def N_def)
    have old: "\<forall>x cl. map_of A (x, cl) \<noteq> None \<longrightarrow> x < k"
      using i(1) by blast
    have dK: "distinct (K x)" for x by (simp add: K_def distinct_get_clusters)
    note cf = column_fold [OF f dK dK k old]
    from cf have r1: "\<forall>k v. map_of A k = Some v \<longrightarrow> map_of S k = Some v" by blast
    from cf have r2: "\<forall>key. map_of S key \<noteq> None \<longrightarrow> map_of A key \<noteq> None \<or> (\<exists>c\<in>set (K k). key = (k, c))
              \<or> (\<exists>pc\<in>set (K (k - 1)). key = (k - 1, pc) \<and> map_of S key = Some (init_stats n pc)
                    \<and> 0 < n \<and> K k \<noteq> [])" by blast
    from cf have r3: "\<forall>c\<in>set (K k). \<exists>stats. map_of S (k, c) = Some stats \<and> length stats = n
              \<and> (\<forall>i<n. \<exists>q. stats ! i = Some q \<and> best_link S N rois (K (k - 1)) k c i q)" by blast
    from cf have r4: "K k \<noteq> [] \<and> 0 < n \<longrightarrow> n \<le> length rois" by blast
    have cases3: "(\<exists>stats'. map_of A (x, cl) = Some stats' \<and> stats' = stats)
        \<or> (map_of A (x, cl) = None \<and> x = k \<and> cl \<in> set (K k))
        \<or> (map_of A (x, cl) = None \<and> x = k - 1 \<and> cl \<in> set (K (k - 1))
            \<and> stats = init_stats n cl \<and> 0 < n \<and> K k \<noteq> [])"
      if st: "map_of S (x, cl) = Some stats" for x cl stats
    proof (cases "map_of A (x, cl)")
      case (Some stats')
      with r1 st have "stats' = stats" by force
      with Some show ?thesis by simp
    next
      case None
      from st have "map_of S (x, cl) \<noteq> None" by simp
      with r2 None have "(\<exists>c\<in>set (K k). (x, cl) = (k, c))
              \<or> (\<exists>pc\<in>set (K (k - 1)). (x, cl) = (k - 1, pc) \<and> map_of S (x, cl) = Some (init_stats n pc)
                    \<and> 0 < n \<and> K k \<noteq> [])" by blast
      with None st show ?thesis by auto
    qed
    have notlinked: "\<not> linked K (k - 1)" if "map_of A (k - 1, cl) = None" "cl \<in> set (K (k - 1))" for cl
    proof
      assume l: "linked K (k - 1)"
      from k have "k - 1 < k" by simp
      from i(4) [OF l this that(2)] that(1) show False by simp
    qed
    show ?thesis
      unfolding K_def [symmetric] N_def [symmetric]
    proof (rule dp_invI)
      fix x cl stats assume st: "map_of S (x, cl) = Some stats"
      from cases3 [OF st] show "x < Suc k \<and> cl \<in> set (K x) \<and> length stats = n"
      proof (elim disjE exE conjE)
        fix stats' assume "map_of A (x, cl) = Some stats'" "stats' = stats"
        with i(1) show ?thesis by (simp add: less_Suc_eq)
      next
        assume "x = k" "cl \<in> set (K k)"
        with r3 st show ?thesis by auto
      next
        assume "x = k - 1" "cl \<in> set (K (k - 1))" "stats = init_stats n cl"
        then show ?thesis by (simp add: init_stats_def)
      qed
    next
      fix x cl stats assume st: "map_of S (x, cl) = Some stats" and l: "linked K x"
      from cases3 [OF st]
      show "\<forall>i<n. \<exists>q. stats ! i = Some q \<and> best_link S N rois (K (x - 1)) x cl i q"
      proof (elim disjE exE conjE)
        fix stats' assume a: "map_of A (x, cl) = Some stats'" "stats' = stats"
        from i(2) [OF a(1) l] a(2) best_link_preserved [OF _ r1] show ?thesis by blast
      next
        assume "x = k" "cl \<in> set (K k)"
        with r3 st show ?thesis by auto
      next
        assume "map_of A (x, cl) = None" "x = k - 1" "cl \<in> set (K (k - 1))"
        with notlinked l show ?thesis by blast
      qed
    next
      fix x cl stats assume st: "map_of S (x, cl) = Some stats" and l: "\<not> linked K x"
      from cases3 [OF st]
      show "stats = init_stats n cl \<and> x + 1 < Suc k \<and> K (x + 1) \<noteq> [] \<and> 0 < n"
      proof (elim disjE exE conjE)
        fix stats' assume a: "map_of A (x, cl) = Some stats'" "stats' = stats"
        from i(3) [OF a(1) l] a(2) show ?thesis by simp
      next
        assume "x = k"
        with l lk show ?thesis by simp
      next
        assume "x = k - 1" "stats = init_stats n cl" "0 < n" "K k \<noteq> []"
        with k show ?thesis by simp
      qed
    next
      fix x cl assume l: "linked K x" and x: "x < Suc k" and c: "cl \<in> set (K x)"
      show "map_of S (x, cl) \<noteq> None"
      proof (cases "x = k")
        case True
        with r3 c show ?thesis by auto
      next
        case False
        with x have "x < k" by simp
        from i(4) [OF l this c] r1 show ?thesis by auto
      qed
    next
      show "S \<noteq> [] \<and> 0 < n \<longrightarrow> n \<le> length rois"
      proof (cases "K k = []")
        case True
        with f have "S = A" by simp
        with i(5) show ?thesis by simp
      next
        case False
        with r4 show ?thesis by simp
      qed
    qed
  qed
qed

lemma upt_split_nth:
  assumes "[a..<b] = ys @ c # zs"
  shows "c = a + length ys"
proof -
  have c: "(ys @ c # zs) ! length ys = c" by simp
  have "length ys < length (ys @ c # zs)" by simp
  then have "length ys < length [a..<b]" by (simp only: assms)
  then have "a + length ys < b" by simp
  then have "[a..<b] ! length ys = a + length ys" by (rule nth_upt)
  with c show ?thesis by (simp only: assms)
qed

lemma dp_cache_inv:
  assumes "dp_cache n rois ecg = Inr cache"
  shows "dp_inv n (width ecg) rois (get_clusters ecg) (max 1 (width ecg)) cache"
proof -
  define P where "P ys T \<longleftrightarrow> dp_inv n (width ecg) rois (get_clusters ecg) (Suc (length ys)) T"
    for ys :: "nat list" and T :: cache
  from assms have f: "fold_err (column_step n rois ecg) [1..<width ecg] [] = Inr cache"
    by (simp add: dp_cache_def)
  have "P [1..<width ecg] cache"
  proof (rule fold_err_induct [OF f])
    show "P [] []" by (simp add: P_def dp_inv_def linked_def)
  next
    fix ys a zs T T'
    assume xs: "[1..<width ecg] = ys @ a # zs" and PT: "P ys T"
      and step: "column_step n rois ecg a T = Inr T'"
    from upt_split_nth [OF xs] have a: "a = Suc (length ys)" by simp
    from column_step_inv [OF step] PT a show "P (ys @ [a]) T'"
      by (simp add: P_def)
  qed
  moreover have "Suc (length [1..<width ecg]) = max 1 (width ecg)" by auto
  ultimately show ?thesis by (simp only: P_def)
qed




lemma cache_cell_stats:
  assumes "cache_cell cache node i = Inr q"
  shows "\<exists>stats. map_of cache node = Some stats \<and> i < length stats \<and> stats ! i = Some q"
  using assms by (auto simp: cache_cell_def split: option.splits if_splits)

lemma linked_cell:
  assumes inv: "dp_inv n N rois K k cache" and c: "cache_cell cache (x, cl) i = Inr q"
    and l: "linked K x"
  shows "\<exists>best p. best \<in> set (K (x - 1)) \<and> py_min_key (trans_cost cache N rois x cl i) (K (x - 1)) = Some best
           \<and> cache_cell cache (x - 1, best) i = Inr p
           \<and> q = Cell (centre best) (Some (x - 1, best)) (cell_len p + 1) (trans_cost cache N rois x cl i best)"
proof -
  from cache_cell_stats [OF c] obtain stats where st: "map_of cache (x, cl) = Some stats"
    and i: "i < length stats" and q: "stats ! i = Some q" by blast
  from dp_invD(1) [OF inv st] i have "i < n" by simp
  with dp_invD(2) [OF inv st l] q have bl: "best_link cache N rois (K (x - 1)) x cl i q" by auto
  then obtain best where b: "py_min_key (trans_cost cache N rois x cl i) (K (x - 1)) = Some best"
    and qq: "q = Cell (centre best) (Some (x - 1, best))
                  (cell_len (the_cell cache (x - 1, best) i) + 1)
                  (trans_cost cache N rois x cl i best)"
    by (auto simp: best_link_def split: option.splits)
  from py_min_key_Some [OF b] have bin: "best \<in> set (K (x - 1))" by blast
  from best_link_cells [OF bl bin] obtain p where p: "cache_cell cache (x - 1, best) i = Inr p" by blast
  then have "the_cell cache (x - 1, best) i = p" by (simp add: the_cell_def)
  with qq bin b p show ?thesis by blast
qed

lemma unlinked_cell:
  assumes inv: "dp_inv n N rois K k cache" and c: "cache_cell cache (x, cl) i = Inr q"
    and l: "\<not> linked K x"
  shows "q = Cell (centre cl) None 1 0 \<and> x + 1 < k \<and> K (x + 1) \<noteq> []"
proof -
  from cache_cell_stats [OF c] obtain stats where st: "map_of cache (x, cl) = Some stats"
    and i: "i < length stats" and q: "stats ! i = Some q" by blast
  from dp_invD(3) [OF inv st l] i q show ?thesis by (auto simp: init_stats_def)
qed


text \<open>
  C2 (amended). Every cell of the cache belongs to a cluster of its column. If the column
  immediately to the left has clusters, the predecessor of the cell is a cluster of that
  column, and the length is the predecessor's plus one. If the column to the left has no
  cluster (or there is none), the cell is the initial state \<open>(centre, none, 1, 0)\<close>, entered
  when the next column used the cluster as a predecessor: behind an empty column the paths
  start again.
\<close>

theorem dp_predecessor_column:
  assumes dp: "dp_cache n rois ecg = Inr cache"
    and q: "cache_cell cache (x, cl) i = Inr q"
  shows "x < width ecg \<and> cl \<in> set (get_clusters ecg x)
       \<and> (linked (get_clusters ecg) x \<longrightarrow>
            (\<exists>best p. best \<in> set (get_clusters ecg (x - 1)) \<and> cell_prev q = Some (x - 1, best)
               \<and> cache_cell cache (x - 1, best) i = Inr p \<and> cell_len q = cell_len p + 1))
       \<and> (\<not> linked (get_clusters ecg) x \<longrightarrow>
            q = Cell (centre cl) None 1 0 \<and> x + 1 < width ecg \<and> get_clusters ecg (x + 1) \<noteq> [])"
proof -
  define K where "K = get_clusters ecg"
  note inv = dp_cache_inv [OF dp, folded K_def]
  from cache_cell_stats [OF q] obtain stats where st: "map_of cache (x, cl) = Some stats" by blast
  have a: "x < width ecg \<and> cl \<in> set (K x)"
  proof (cases "linked K x")
    case True
    from dp_invD(1) [OF inv st] have "x < max 1 (width ecg)" "cl \<in> set (K x)" by blast+
    moreover from True have "1 \<le> x" by (simp add: linked_def)
    ultimately show ?thesis by auto
  next
    case False
    from dp_invD(3) [OF inv st False] dp_invD(1) [OF inv st] show ?thesis by auto
  qed
  have b: "\<exists>best p. best \<in> set (K (x - 1)) \<and> cell_prev q = Some (x - 1, best)
               \<and> cache_cell cache (x - 1, best) i = Inr p \<and> cell_len q = cell_len p + 1"
    if "linked K x"
    using linked_cell [OF inv q that] by force
  have c: "q = Cell (centre cl) None 1 0 \<and> x + 1 < width ecg \<and> K (x + 1) \<noteq> []"
    if "\<not> linked K x"
    using unlinked_cell [OF inv q that] by auto
  from a b c show ?thesis unfolding K_def by blast
qed

lemma ex_gap_clusters:
  "get_clusters ex_gap_chart 0 = [[0], [2]]"
  "get_clusters ex_gap_chart (Suc 0) = [[0], [2]]"
  "get_clusters ex_gap_chart 2 = []"
  "get_clusters ex_gap_chart 3 = [[0]]"
  "get_clusters ex_gap_chart 4 = [[0, 1]]"
  by (simp_all add: ex_gap_chart_def get_clusters_def height_def BLACK_def upt_rec)

lemma ex_gap_width: "width ex_gap_chart = 5"
  by (simp add: ex_gap_chart_def width_def)

lemma ex_ranges: "[Suc 0..<5] = [Suc 0, 2, 3, 4]" "[0..<2] = [0, Suc 0]"
  by (simp_all add: upt_rec)

lemma replicate_2: "replicate 2 a = [a, a]"
  by (simp add: numeral_2_eq_2)

lemmas dp_defs = Let_def replicate_2 column_step_def cluster_step_def roi_step_def cost_step_def cache_cell_def
  centre_def mean_def gap_def len_range_def

lemma ex_gap_cache:
  "dp_cache 2 [0, 2] ex_gap_chart =
     Inr [((1, [0]), [Some (Cell 0 (Some (0, [0])) 2 0), Some (Cell 2 (Some (0, [2])) 2 (1 / 2))]),
          ((0, [0]), [Some (Cell 0 None 1 0), Some (Cell 0 None 1 0)]),
          ((0, [2]), [Some (Cell 2 None 1 0), Some (Cell 2 None 1 0)]),
          ((1, [2]), [Some (Cell 0 (Some (0, [0])) 2 (1 / 2)), Some (Cell 2 (Some (0, [2])) 2 0)]),
          ((4, [0, 1]), [Some (Cell 0 (Some (3, [0])) 2 0), Some (Cell 0 (Some (3, [0])) 2 2)]),
          ((3, [0]), [Some (Cell 0 None 1 0), Some (Cell 0 None 1 0)])]"
  by (simp add: dp_cache_def ex_gap_width ex_gap_clusters dp_defs ex_ranges)

theorem dp_gap_restart_counterexample:
  "get_clusters ex_gap_chart 1 = [[0], [2]] \<and> get_clusters ex_gap_chart 2 = []
   \<and> get_clusters ex_gap_chart 3 = [[0]]
   \<and> cells_at (dp_cache 2 [0, 2] ex_gap_chart) (1, [0]) 0 = Inr (Cell 0 (Some (0, [0])) 2 0)
   \<and> cells_at (dp_cache 2 [0, 2] ex_gap_chart) (3, [0]) 0 = Inr (Cell 0 None 1 0)
   \<and> cells_at (dp_cache 2 [0, 2] ex_gap_chart) (4, [0, 1]) 0 = Inr (Cell 0 (Some (3, [0])) 2 0)"
  using ex_gap_clusters by (simp add: ex_gap_cache cells_at_def cache_cell_def)

theorem dp_predecessor_column_witness:
  "\<exists>cache. dp_cache 2 [0, 2] ex_gap_chart = Inr cache
     \<and> cache_cell cache (3, [0]) 0 = Inr (Cell (centre [0]) None 1 0)
     \<and> (\<exists>best p. best \<in> set (get_clusters ex_gap_chart (4 - 1))
           \<and> cell_prev (Cell 0 (Some (3, [0])) 2 0) = Some (4 - 1, best)
           \<and> cache_cell cache (4 - 1, best) 0 = Inr p
           \<and> cell_len (Cell 0 (Some (3, [0])) 2 0) = cell_len p + 1)"
proof -
  from ex_gap_cache obtain cache where dp: "dp_cache 2 [0, 2] ex_gap_chart = Inr cache"
    and cache: "cache = [((1, [0]), [Some (Cell 0 (Some (0, [0])) 2 0), Some (Cell 2 (Some (0, [2])) 2 (1 / 2))]),
          ((0, [0]), [Some (Cell 0 None 1 0), Some (Cell 0 None 1 0)]),
          ((0, [2]), [Some (Cell 2 None 1 0), Some (Cell 2 None 1 0)]),
          ((1, [2]), [Some (Cell 0 (Some (0, [0])) 2 (1 / 2)), Some (Cell 2 (Some (0, [2])) 2 0)]),
          ((4, [0, 1]), [Some (Cell 0 (Some (3, [0])) 2 0), Some (Cell 0 (Some (3, [0])) 2 2)]),
          ((3, [0]), [Some (Cell 0 None 1 0), Some (Cell 0 None 1 0)])]"
    by simp
  have q3: "cache_cell cache (3, [0]) 0 = Inr (Cell 0 None 1 0)"
    and q4: "cache_cell cache (4, [0, 1]) 0 = Inr (Cell 0 (Some (3, [0])) 2 0)"
    by (simp_all add: cache cache_cell_def)
  have l4: "linked (get_clusters ex_gap_chart) 4"
    using ex_gap_clusters by (simp add: linked_def)
  have l3: "\<not> linked (get_clusters ex_gap_chart) 3"
    using ex_gap_clusters by (simp add: linked_def)
  from dp_predecessor_column [OF dp q3] l3
  have a: "cache_cell cache (3, [0]) 0 = Inr (Cell (centre [0]) None 1 0)"
    using q3 by simp
  from dp_predecessor_column [OF dp q4] l4
  have b: "\<exists>best p. best \<in> set (get_clusters ex_gap_chart (4 - 1))
           \<and> cell_prev (Cell 0 (Some (3, [0])) 2 0) = Some (4 - 1, best)
           \<and> cache_cell cache (4 - 1, best) 0 = Inr p
           \<and> cell_len (Cell 0 (Some (3, [0])) 2 0) = cell_len p + 1"
    by blast
  from dp a b show ?thesis by blast
qed


subsection \<open>The polylines of the backtracking\<close>

























subsection \<open>Instances on the two strips\<close>




























end
